theory Spec2Isabelle
  imports Main
begin

section \<open>JavaScript values and the object store\<close>

text \<open>
  The utilities of this repository mutate the objects they are given and hand out
  references to them, so objects live in a store and a value of object type is a
  reference into it. The store is a list; an address is an index into it.

  What is not modelled: functions as values, property attributes, symbols, array holes
  (a hole is an \<open>Undefined\<close> element) and non-integral numbers (a number is an \<open>int\<close>).
  The store does not record prototypes: every object is taken to have the standard
  prototype of its kind. Of the members an object inherits from it, two are modelled
  where the sources reach them: the setter behind an assignment to \<open>__proto__\<close>
  (see \<open>set_prop\<close>) and the method \<open>hasOwnProperty\<close> that \<open>ITERATE\<close> calls on its argument
  (see \<open>iterate_keys\<close>). A read of an inherited member as a property (\<open>inherited\<close> lists
  their names) is not: \<open>get_prop\<close> sees own properties only, and the general theorems
  below are stated for reads that an own property answers or for keys outside that list.
\<close>

type_synonym addr = nat

datatype val = Undefined | Null | Bool bool | Num int | Str string | Ref addr

type_synonym props = "(string \<times> val) list"

datatype kind =
    Plain
  | Array "val list"
  | Date int
  | RegExp string string
  | File string
  | FileList "val list"

datatype obj = Obj kind props

type_synonym heap = "obj list"

datatype error = TypeError | RangeError | SyntaxError

text \<open>The outcome of a statement that may throw: the store as it is at that moment is kept.\<close>

datatype 'a res = Ret 'a heap | Throw error heap

fun kind_of :: "obj \<Rightarrow> kind" where
  "kind_of (Obj k ps) = k"


definition obj_at :: "heap \<Rightarrow> addr \<Rightarrow> obj" where
  "obj_at h a = (if a < length h then h ! a else Obj Plain [])"

definition alloc :: "heap \<Rightarrow> obj \<Rightarrow> heap \<times> addr" where
  "alloc h ob = (h @ [ob], length h)"

text \<open>A value is valid in a store when it is not a reference beyond the store.\<close>

definition valid :: "heap \<Rightarrow> val \<Rightarrow> bool" where
  "valid h v = (case v of Ref a \<Rightarrow> a < length h | _ \<Rightarrow> True)"

subsection \<open>Numbers and strings\<close>

fun show_nat :: "nat \<Rightarrow> string" where
  "show_nat n =
     (if n < 10 then [''0123456789'' ! n]
      else show_nat (n div 10) @ [''0123456789'' ! (n mod 10)])"

declare show_nat.simps [simp del]

definition show_int :: "int \<Rightarrow> string" where
  "show_int i = (if i < 0 then CHR ''-'' # show_nat (nat (- i)) else show_nat (nat i))"

definition digit_val :: "char \<Rightarrow> nat option" where
  "digit_val c = map_of (zip ''0123456789'' [0..<10]) c"

fun read_digits :: "nat \<Rightarrow> string \<Rightarrow> nat option" where
  "read_digits acc [] = Some acc"
| "read_digits acc (c # cs) =
     (case digit_val c of None \<Rightarrow> None | Some d \<Rightarrow> read_digits (10 * acc + d) cs)"

text \<open>A property key that is a canonical array index: decimal digits, no leading zero.\<close>

definition array_index :: "string \<Rightarrow> nat option" where
  "array_index k =
     (if k = [] \<or> (hd k = CHR ''0'' \<and> 1 < length k) then None else read_digits 0 k)"

definition is_space :: "char \<Rightarrow> bool" where
  "is_space c \<longleftrightarrow> c = CHR '' '' \<or> c = CHR 0x09 \<or> c = CHR 0x0A \<or> c = CHR 0x0B
     \<or> c = CHR 0x0C \<or> c = CHR 0x0D"

text \<open>\<open>s.split(d)\<close> for a string separator: the empty separator splits into characters.\<close>

function split_go :: "string \<Rightarrow> string \<Rightarrow> string \<Rightarrow> string list" where
  "split_go d acc [] = [rev acc]"
| "split_go d acc (c # cs) =
     (if d \<noteq> [] \<and> take (length d) (c # cs) = d
      then rev acc # split_go d [] (drop (length d) (c # cs))
      else split_go d (c # acc) cs)"
  by pat_completeness auto
termination
  by (relation "measure (\<lambda>(d, acc, s). length s)") (auto simp: neq_Nil_conv)

definition js_split :: "string \<Rightarrow> string \<Rightarrow> string list" where
  "js_split s d = (if d = [] then map (\<lambda>c. [c]) s else split_go d [] s)"

fun join_with :: "string \<Rightarrow> string list \<Rightarrow> string" where
  "join_with d [] = []"
| "join_with d [x] = x"
| "join_with d (x # y # ys) = x @ d @ join_with d (y # ys)"

subsection \<open>Truthiness and type tests\<close>

fun truthy :: "val \<Rightarrow> bool" where
  "truthy Undefined = False"
| "truthy Null = False"
| "truthy (Bool b) = b"
| "truthy (Num n) = (n \<noteq> 0)"
| "truthy (Str s) = (s \<noteq> [])"
| "truthy (Ref a) = True"

fun nullish :: "val \<Rightarrow> bool" where
  "nullish Undefined = True"
| "nullish Null = True"
| "nullish v = False"

text \<open>\<open>typeof v === "object"\<close> without the \<open>null\<close> case, and \<open>v instanceof Object\<close>.\<close>

fun is_ref :: "val \<Rightarrow> bool" where
  "is_ref (Ref a) = True"
| "is_ref v = False"

fun is_array :: "heap \<Rightarrow> val \<Rightarrow> bool" where
  "is_array h (Ref a) = (case kind_of (obj_at h a) of Array xs \<Rightarrow> True | _ \<Rightarrow> False)"
| "is_array h v = False"

fun is_plain :: "heap \<Rightarrow> val \<Rightarrow> bool" where
  "is_plain h (Ref a) = (case kind_of (obj_at h a) of Plain \<Rightarrow> True | _ \<Rightarrow> False)"
| "is_plain h v = False"

subsection \<open>Property access\<close>

definition lookup :: "props \<Rightarrow> string \<Rightarrow> val" where
  "lookup ps k = (case map_of ps k of None \<Rightarrow> Undefined | Some v \<Rightarrow> v)"

definition elem_or_prop :: "val list \<Rightarrow> props \<Rightarrow> string \<Rightarrow> val" where
  "elem_or_prop xs ps k =
     (case array_index k of
        Some i \<Rightarrow> if i < length xs then xs ! i else lookup ps k
      | None \<Rightarrow> if k = ''length'' then Num (int (length xs)) else lookup ps k)"

text \<open>\<open>v[k]\<close> for a base \<open>v\<close> that is neither \<open>undefined\<close> nor \<open>null\<close> (every read in the
  sources is guarded, or the guard is written out where the function is modelled). Own
  properties only: for a key in \<open>inherited\<close> that the object does not have itself, the
  language finds the member of \<open>Object.prototype\<close>, the model gives \<open>undefined\<close>.\<close>

definition inherited :: "string list" where
  "inherited = [''__proto__'', ''constructor'', ''hasOwnProperty'', ''isPrototypeOf'',
     ''propertyIsEnumerable'', ''toLocaleString'', ''toString'', ''valueOf'',
     ''__defineGetter__'', ''__defineSetter__'', ''__lookupGetter__'', ''__lookupSetter__'']"

fun get_prop :: "heap \<Rightarrow> val \<Rightarrow> string \<Rightarrow> val" where
  "get_prop h (Ref a) k =
     (case obj_at h a of
        Obj (Array xs) ps \<Rightarrow> elem_or_prop xs ps k
      | Obj (FileList xs) ps \<Rightarrow> elem_or_prop xs ps k
      | Obj _ ps \<Rightarrow> lookup ps k)"
| "get_prop h (Str s) k = elem_or_prop (map (\<lambda>c. Str [c]) s) [] k"
| "get_prop h v k = Undefined"

text \<open>The own enumerable string keys, in enumeration order.\<close>

fun own_keys :: "heap \<Rightarrow> val \<Rightarrow> string list" where
  "own_keys h (Ref a) =
     (case obj_at h a of
        Obj (Array xs) ps \<Rightarrow> map show_nat [0..<length xs] @ map fst ps
      | Obj (FileList xs) ps \<Rightarrow> map show_nat [0..<length xs] @ map fst ps
      | Obj _ ps \<Rightarrow> map fst ps)"
| "own_keys h (Str s) = map show_nat [0..<length s]"
| "own_keys h v = []"

text \<open>\<open>hasOwnProperty\<close>: the enumerable keys and the \<open>length\<close> of an array or a string.\<close>

fun has_length :: "heap \<Rightarrow> val \<Rightarrow> bool" where
  "has_length h (Ref a) =
     (case kind_of (obj_at h a) of Array xs \<Rightarrow> True | FileList xs \<Rightarrow> True | _ \<Rightarrow> False)"
| "has_length h (Str s) = True"
| "has_length h v = False"

definition has_own :: "heap \<Rightarrow> val \<Rightarrow> string \<Rightarrow> bool" where
  "has_own h v k \<longleftrightarrow> k \<in> set (own_keys h v) \<or> (has_length h v \<and> k = ''length'')"

text \<open>A new key goes to the end of the enumeration order. (The language lists the keys
  that are array indices first, in ascending order; the model keeps them where they were
  added, which changes the order of enumeration only.)\<close>

fun upd_props :: "props \<Rightarrow> string \<Rightarrow> val \<Rightarrow> props" where
  "upd_props [] k x = [(k, x)]"
| "upd_props ((k', y) # ps) k x =
     (if k' = k then (k, x) # ps else (k', y) # upd_props ps k x)"

definition to_number :: "val \<Rightarrow> int option" where
  "to_number v =
     (case v of
        Undefined \<Rightarrow> None
      | Null \<Rightarrow> Some 0
      | Bool b \<Rightarrow> Some (if b then 1 else 0)
      | Num n \<Rightarrow> Some n
      | Str s \<Rightarrow> (if s = [] then Some 0 else map_option int (read_digits 0 s))
      | Ref a \<Rightarrow> None)"

definition set_elems :: "val list \<Rightarrow> string \<Rightarrow> val \<Rightarrow> (error + val list) option" where
  "set_elems xs k x =
     (case array_index k of
        Some i \<Rightarrow>
          Some (Inr (if i < length xs then xs[i := x]
                     else xs @ replicate (i - length xs) Undefined @ [x]))
      | None \<Rightarrow>
          if k = ''length'' then
            (case to_number x of
               None \<Rightarrow> Some (Inl RangeError)
             | Some n \<Rightarrow>
                 if n < 0 then Some (Inl RangeError)
                 else Some (Inr (take (nat n) xs @ replicate (nat n - length xs) Undefined)))
          else None)"

text \<open>
  \<open>v[k] = x\<close> in strict mode (the package is an ES module, so all of its code is strict):
  assigning a property of a primitive throws a \<open>TypeError\<close>.

  The key \<open>__proto__\<close> is special. On an object that has no own property of that name
  (an object literal, \<open>{}\<close>, an array) the assignment runs the setter inherited from
  \<open>Object.prototype\<close>: it replaces the prototype when \<open>x\<close> is an object or \<open>null\<close> and does
  nothing otherwise, and in both cases it creates no own property, so the store is left as
  it is. On a primitive the same setter runs and returns without an error. An object that
  already has an own property \<open>__proto__\<close> (\<open>JSON.parse\<close> creates one, see \<open>alloc_json\<close>) gets
  it overwritten like any other.
\<close>

definition set_own :: "heap \<Rightarrow> addr \<Rightarrow> kind \<Rightarrow> props \<Rightarrow> string \<Rightarrow> val \<Rightarrow> unit res" where
  "set_own h a kd ps k x =
     (case kd of
        Array xs \<Rightarrow>
          (case set_elems xs k x of
             Some (Inr xs') \<Rightarrow> Ret () (h[a := Obj (Array xs') ps])
           | Some (Inl e) \<Rightarrow> Throw e h
           | None \<Rightarrow> Ret () (h[a := Obj (Array xs) (upd_props ps k x)]))
      | FileList xs \<Rightarrow>
          (if array_index k \<noteq> None \<or> k = ''length'' then Throw TypeError h
           else Ret () (h[a := Obj (FileList xs) (upd_props ps k x)]))
      | _ \<Rightarrow> Ret () (h[a := Obj kd (upd_props ps k x)]))"

fun set_prop :: "heap \<Rightarrow> val \<Rightarrow> string \<Rightarrow> val \<Rightarrow> unit res" where
  "set_prop h (Ref a) k x =
     (case obj_at h a of
        Obj kd ps \<Rightarrow>
          if k = ''__proto__'' \<and> k \<notin> set (map fst ps) then Ret () h
          else set_own h a kd ps k x)"
| "set_prop h v k x =
     (if k = ''__proto__'' \<and> \<not> nullish v then Ret () h else Throw TypeError h)"

fun delete_prop :: "heap \<Rightarrow> val \<Rightarrow> string \<Rightarrow> unit res" where
  "delete_prop h (Ref a) k =
     (case obj_at h a of
        Obj (Array xs) ps \<Rightarrow>
          (case array_index k of
             Some i \<Rightarrow>
               if i < length xs then Ret () (h[a := Obj (Array (xs[i := Undefined])) ps])
               else Ret () (h[a := Obj (Array xs) (filter (\<lambda>p. fst p \<noteq> k) ps)])
           | None \<Rightarrow>
               if k = ''length'' then Throw TypeError h
               else Ret () (h[a := Obj (Array xs) (filter (\<lambda>p. fst p \<noteq> k) ps)]))
      | Obj kd ps \<Rightarrow> Ret () (h[a := Obj kd (filter (\<lambda>p. fst p \<noteq> k) ps)]))"
| "delete_prop h v k = Ret () h"

subsection \<open>String conversion\<close>

text \<open>
  \<open>v.toString()\<close> for a value that is neither \<open>undefined\<close> nor \<open>null\<close>. An array joins
  the strings of its elements with commas, \<open>undefined\<close> and \<open>null\<close> elements giving the
  empty string, and an array met again while it is being joined gives the empty string
  (the stack \<open>stk\<close> holds the arrays being joined). The text of a date depends on the
  time zone and is never blank; the model writes the instant instead.
\<close>

function to_str :: "heap \<Rightarrow> addr list \<Rightarrow> val \<Rightarrow> string" where
  "to_str h stk Undefined = ''undefined''"
| "to_str h stk Null = ''null''"
| "to_str h stk (Bool b) = (if b then ''true'' else ''false'')"
| "to_str h stk (Num n) = show_int n"
| "to_str h stk (Str s) = s"
| "to_str h stk (Ref a) =
     (if a \<in> set stk \<or> \<not> a < length h then []
      else
        (case kind_of (h ! a) of
           Plain \<Rightarrow> ''[object Object]''
         | Array xs \<Rightarrow>
             join_with '',''
               (map (\<lambda>x. if nullish x then [] else to_str h (a # stk) x) xs)
         | Date t \<Rightarrow> ''Date '' @ show_int t
         | RegExp src fl \<Rightarrow> ''/'' @ src @ ''/'' @ fl
         | File nm \<Rightarrow> ''[object File]''
         | FileList fs \<Rightarrow> ''[object FileList]''))"
  by pat_completeness auto

lemma card_stack_less:
  assumes "a < n" and "a \<notin> set stk"
  shows "card (set stk \<inter> {..<n}) < n"
proof -
  have "set stk \<inter> {..<n} \<subseteq> {..<n} - {a}"
    using assms by auto
  then have "card (set stk \<inter> {..<n}) \<le> card ({..<n} - {a})"
    by (intro card_mono) auto
  also have "\<dots> < n"
    using assms by (simp add: card_Diff_singleton_if)
  finally show ?thesis .
qed

lemma stack_measure:
  assumes "a < n" and "a \<notin> set stk"
  shows "n - Suc (card (set stk \<inter> {..<n})) < n - card (set stk \<inter> {..<n})"
  using card_stack_less [OF assms] by simp

termination to_str
  by (relation "measure (\<lambda>(h, stk, v). length h - card (set stk \<inter> {..<length h}))")
     (auto intro: stack_measure)

definition to_string :: "heap \<Rightarrow> val \<Rightarrow> string" where
  "to_string h v = to_str h [] v"

subsection \<open>\<open>Object.assign\<close>\<close>

text \<open>
  \<open>Object.assign(t, s)\<close> copies the own enumerable properties of \<open>s\<close> onto \<open>t\<close>, reading
  each value when its turn comes. A primitive target is wrapped in a temporary object,
  which the store never sees; the wrapper of a string refuses a write to an index or to
  \<open>length\<close>. The value returned by \<open>Object.assign\<close> is not used by the sources.
\<close>

fun assign_keys :: "val \<Rightarrow> val \<Rightarrow> string list \<Rightarrow> heap \<Rightarrow> unit res" where
  "assign_keys t s [] h = Ret () h"
| "assign_keys t s (k # ks) h =
     (if has_own h s k then
        (case set_prop h t k (get_prop h s k) of
           Ret u h' \<Rightarrow> assign_keys t s ks h'
         | Throw e h' \<Rightarrow> Throw e h')
      else assign_keys t s ks h)"

definition object_assign :: "heap \<Rightarrow> val \<Rightarrow> val \<Rightarrow> unit res" where
  "object_assign h t s =
     (if nullish t then Throw TypeError h
      else if nullish s then Ret () h
      else if is_ref t then assign_keys t s (own_keys h s) h
      else if \<exists>k \<in> set (own_keys h s). has_own h t k then Throw TypeError h
      else Ret () h)"

section \<open>Helpers imported by the utilities\<close>

text \<open>
  Modelled from the spec: \<open>check.functions\<close> and \<open>modify-string.functions\<close>, from which
  the utilities import \<open>IS_DEFINED\<close>, \<open>IS_OBJECT\<close> and \<open>TRIM\<close>, are not among the sources.
  The specification speaks of a value that is present (neither \<open>undefined\<close> nor \<open>null\<close>),
  of a mapping as opposed to a sequence or a primitive, and of trimming white space.
\<close>

definition IS_DEFINED :: "val \<Rightarrow> bool" where
  "IS_DEFINED v \<longleftrightarrow> \<not> nullish v"

definition IS_OBJECT :: "heap \<Rightarrow> val \<Rightarrow> bool" where
  "IS_OBJECT h v \<longleftrightarrow> is_plain h v"

definition TRIM :: "string \<Rightarrow> string" where
  "TRIM s = rev (dropWhile is_space (rev (dropWhile is_space s)))"

section \<open>The object utilities\<close>

subsection \<open>\<open>ITERATE\<close>\<close>

text \<open>
  The callback may change the store and may throw. The keys of the \<open>for ... in\<close> loop are
  those present when the loop starts; a key deleted before its turn is not visited.

  The test of the loop body is the call \<open>item.hasOwnProperty(key)\<close>, a property read
  followed by a call. When \<open>item\<close> has an own property named \<open>hasOwnProperty\<close>, the read
  finds that property instead of the inherited method; no value of the model is a
  function, so the call throws a \<open>TypeError\<close>. The store is looked at on every turn: the
  callback may have added such a property.
\<close>

definition shadowed :: "heap \<Rightarrow> val \<Rightarrow> bool" where
  "shadowed h item \<longleftrightarrow> ''hasOwnProperty'' \<in> set (own_keys h item)"

type_synonym callback = "val \<Rightarrow> string \<Rightarrow> nat \<Rightarrow> heap \<Rightarrow> unit res"

fun iterate_keys :: "callback \<Rightarrow> val \<Rightarrow> string list \<Rightarrow> nat \<Rightarrow> heap \<Rightarrow> unit res" where
  "iterate_keys cb item [] index h = Ret () h"
| "iterate_keys cb item (key # keys) index h =
     (if has_own h item key then
        (if shadowed h item then Throw TypeError h
         else
           (case cb (get_prop h item key) key index h of
              Ret u h' \<Rightarrow> iterate_keys cb item keys (Suc index) h'
            | Throw e h' \<Rightarrow> Throw e h'))
      else iterate_keys cb item keys index h)"

definition ITERATE :: "val \<Rightarrow> callback \<Rightarrow> heap \<Rightarrow> unit res" where
  "ITERATE item cb h =
     (if truthy item \<and> (IS_OBJECT h item \<or> is_array h item)
      then iterate_keys cb item (own_keys h item) 0 h
      else Ret () h)"

subsection \<open>\<open>GET_VALUE\<close> and \<open>GET_OBJECT_PARAM\<close>\<close>

text \<open>An optional string parameter is \<open>None\<close> when the caller leaves it out.\<close>

definition str_truthy :: "string option \<Rightarrow> bool" where
  "str_truthy s \<longleftrightarrow> (case s of None \<Rightarrow> False | Some t \<Rightarrow> t \<noteq> [])"

text \<open>The default of the parameter \<open>delimiter\<close>.\<close>

definition delim_of :: "string option \<Rightarrow> string" where
  "delim_of delimiter = (case delimiter of None \<Rightarrow> ''.'' | Some d \<Rightarrow> d)"

text \<open>\<open>segs.reduce((accum, curr) => accum && accum[curr], item)\<close>\<close>

definition walk_path :: "heap \<Rightarrow> val \<Rightarrow> string list \<Rightarrow> val" where
  "walk_path h item segs =
     foldl (\<lambda>accum seg. if truthy accum then get_prop h accum seg else accum) item segs"

definition GET_VALUE :: "heap \<Rightarrow> val \<Rightarrow> string option \<Rightarrow> string option \<Rightarrow> string option \<Rightarrow> val" where
  "GET_VALUE h item name path delimiter =
     (let value =
            (if truthy item then
               (if str_truthy path then
                  (let value = walk_path h item (js_split (the path) (delim_of delimiter))
                   in if truthy value \<and> str_truthy name then get_prop h value (the name) else value)
                else
                  (if str_truthy name \<and> IS_DEFINED (get_prop h item (the name))
                   then get_prop h item (the name) else Undefined))
             else Undefined)
      in if IS_DEFINED value \<and> length (TRIM (to_string h value)) \<noteq> 0 then value else Undefined)"

definition GET_OBJECT_PARAM :: "heap \<Rightarrow> val \<Rightarrow> string option \<Rightarrow> string option \<Rightarrow> val" where
  "GET_OBJECT_PARAM h item path delimiter =
     (if IS_OBJECT h item then GET_VALUE h item (Some []) path delimiter else item)"

subsection \<open>\<open>MERGE\<close>\<close>

text \<open>
  \<open>MERGE\<close> calls itself on nested objects, and nothing in it stops on a cyclic structure:
  the first argument bounds the depth of the calls, and \<open>None\<close> says that the bound was
  reached. \<open>Object.keys\<close> of \<open>undefined\<close> or \<open>null\<close> throws. The loop over the keys
  takes the nested call as its parameter \<open>self\<close>.
\<close>

fun merge_keys ::
  "(val \<Rightarrow> val \<Rightarrow> heap \<Rightarrow> val res option) \<Rightarrow> val \<Rightarrow> val \<Rightarrow> string list \<Rightarrow> heap
     \<Rightarrow> unit res option" where
  "merge_keys self target source [] h = Some (Ret () h)"
| "merge_keys self target source (key # keys) h =
     (if truthy target \<and> is_ref (get_prop h source key) then
        (case self (get_prop h target key) (get_prop h source key) h of
           None \<Rightarrow> None
         | Some (Throw e h') \<Rightarrow> Some (Throw e h')
         | Some (Ret r h1) \<Rightarrow>
             (case object_assign h1 (get_prop h source key) r of
                Throw e h' \<Rightarrow> Some (Throw e h')
              | Ret u h2 \<Rightarrow> merge_keys self target source keys h2))
      else merge_keys self target source keys h)"

primrec MERGE :: "nat \<Rightarrow> val \<Rightarrow> val \<Rightarrow> heap \<Rightarrow> val res option" where
  "MERGE 0 target source h = None"
| "MERGE (Suc n) target source h =
     (if nullish source then Some (Throw TypeError h)
      else
        (case merge_keys (MERGE n) target source (own_keys h source) h of
           None \<Rightarrow> None
         | Some (Throw e h') \<Rightarrow> Some (Throw e h')
         | Some (Ret u h1) \<Rightarrow>
             (case (if truthy target then object_assign h1 target source
                    else (case alloc h1 (Obj Plain []) of
                            (h2, a) \<Rightarrow> object_assign h2 (Ref a) source)) of
                Throw e h' \<Rightarrow> Some (Throw e h')
              | Ret u' h3 \<Rightarrow> Some (Ret target h3))))"

subsection \<open>\<open>CONVERT_DOT_TO_OBJECT\<close>\<close>

text \<open>The reducer of \<open>keys.reduce\<close>; it returns \<open>undefined\<close> once the accumulator is falsy.\<close>

fun dot_reduce :: "val \<Rightarrow> nat \<Rightarrow> string list \<Rightarrow> nat \<Rightarrow> val \<Rightarrow> heap \<Rightarrow> val res" where
  "dot_reduce value len [] index accum h = Ret accum h"
| "dot_reduce value len (seg # rest) index accum h =
     (if truthy accum then
        (if IS_DEFINED (get_prop h accum seg)
         then dot_reduce value len rest (Suc index) (get_prop h accum seg) h
         else if index < len - 1 then
           (case alloc h (Obj Plain []) of
              (h1, a) \<Rightarrow>
                (case set_prop h1 accum seg (Ref a) of
                   Throw e h' \<Rightarrow> Throw e h'
                 | Ret u h2 \<Rightarrow> dot_reduce value len rest (Suc index) (Ref a) h2))
         else
           (case set_prop h accum seg value of
              Throw e h' \<Rightarrow> Throw e h'
            | Ret u h2 \<Rightarrow> dot_reduce value len rest (Suc index) value h2))
      else dot_reduce value len rest (Suc index) Undefined h)"

definition dot_callback :: "val \<Rightarrow> callback" where
  "dot_callback params value key index h =
     (if CHR ''.'' \<in> set key then
        (let keys = js_split key ''.'' in
           (case dot_reduce value (length keys) keys 0 params h of
              Throw e h' \<Rightarrow> Throw e h'
            | Ret r h' \<Rightarrow> delete_prop h' params key))
      else Ret () h)"

definition CONVERT_DOT_TO_OBJECT :: "val \<Rightarrow> heap \<Rightarrow> unit res" where
  "CONVERT_DOT_TO_OBJECT params h = ITERATE params (dot_callback params) h"

subsection \<open>\<open>CLONE\<close>\<close>

text \<open>
  \<open>CLONE\<close> calls itself on every element and property, and nothing in it stops on a
  cyclic structure: the first argument bounds the depth of the calls, and \<open>None\<close> says
  that the bound was reached. \<open>item.map(CLONE)\<close> creates the new array, of the length of
  \<open>item\<close>, before it visits the elements; the loop over the keys fills the new object
  that \<open>clonedObject\<close> names. The loops take the nested call as their parameter \<open>self\<close>;
  \<open>clone_object\<close> is the part of the body that handles a value of type object.
\<close>

definition elems_at :: "heap \<Rightarrow> addr \<Rightarrow> val list" where
  "elems_at h a = (case kind_of (obj_at h a) of Array xs \<Rightarrow> xs | _ \<Rightarrow> [])"

fun clone_elems ::
  "(val \<Rightarrow> heap \<Rightarrow> val res option) \<Rightarrow> addr \<Rightarrow> addr \<Rightarrow> nat list \<Rightarrow> heap \<Rightarrow> unit res option" where
  "clone_elems self a r [] h = Some (Ret () h)"
| "clone_elems self a r (k # ks) h =
     (if k < length (elems_at h a) then
        (case self (elems_at h a ! k) h of
           None \<Rightarrow> None
         | Some (Throw e h') \<Rightarrow> Some (Throw e h')
         | Some (Ret v h1) \<Rightarrow>
             clone_elems self a r ks (h1[r := Obj (Array ((elems_at h1 r)[k := v])) []]))
      else clone_elems self a r ks h)"

fun clone_keys ::
  "(val \<Rightarrow> heap \<Rightarrow> val res option) \<Rightarrow> val \<Rightarrow> addr \<Rightarrow> string list \<Rightarrow> heap \<Rightarrow> unit res option" where
  "clone_keys self item r [] h = Some (Ret () h)"
| "clone_keys self item r (key # keys) h =
     (if has_own h item key then
        (case self (get_prop h item key) h of
           None \<Rightarrow> None
         | Some (Throw e h') \<Rightarrow> Some (Throw e h')
         | Some (Ret v h1) \<Rightarrow>
             (case set_prop h1 (Ref r) key v of
                Throw e h' \<Rightarrow> Some (Throw e h')
              | Ret u h2 \<Rightarrow> clone_keys self item r keys h2))
      else clone_keys self item r keys h)"

definition clone_object ::
  "(val \<Rightarrow> heap \<Rightarrow> val res option) \<Rightarrow> val \<Rightarrow> addr \<Rightarrow> heap \<Rightarrow> val res option" where
  "clone_object self item a h =
     (case kind_of (obj_at h a) of
        Array xs \<Rightarrow>
          (case alloc h (Obj (Array (replicate (length xs) Undefined)) []) of
             (h1, r) \<Rightarrow>
               (case clone_elems self a r [0..<length xs] h1 of
                  None \<Rightarrow> None
                | Some (Throw e h') \<Rightarrow> Some (Throw e h')
                | Some (Ret u h2) \<Rightarrow> Some (Ret (Ref r) h2)))
      | Date t \<Rightarrow>
          (case alloc h (Obj (Date t) []) of (h1, r) \<Rightarrow> Some (Ret (Ref r) h1))
      | RegExp src fl \<Rightarrow>
          (case alloc h (Obj (RegExp src fl) []) of (h1, r) \<Rightarrow> Some (Ret (Ref r) h1))
      | File nm \<Rightarrow> Some (Ret item h)
      | FileList fs \<Rightarrow> Some (Ret item h)
      | Plain \<Rightarrow>
          (case alloc h (Obj Plain []) of
             (h1, r) \<Rightarrow>
               (case clone_keys self item r (own_keys h item) h1 of
                  None \<Rightarrow> None
                | Some (Throw e h') \<Rightarrow> Some (Throw e h')
                | Some (Ret u h2) \<Rightarrow> Some (Ret (Ref r) h2))))"

primrec CLONE :: "nat \<Rightarrow> val \<Rightarrow> heap \<Rightarrow> val res option" where
  "CLONE 0 item h = None"
| "CLONE (Suc n) item h =
     (case item of
        Ref a \<Rightarrow> clone_object (CLONE n) item a h
      | _ \<Rightarrow> Some (Ret item h))"

section \<open>JSON\<close>

text \<open>
  \<open>JSON.stringify\<close> and \<open>JSON.parse\<close> are built into the language. The model covers
  integers, strings with the standard escapes, arrays and objects. A number with a
  fraction or an exponent is outside the model and is rejected by the parser; the text
  of a date is the one of \<open>to_str\<close>.
\<close>

datatype json =
    JNull
  | JBool bool
  | JNum int
  | JStr string
  | JArr "json list"
  | JObj "(string \<times> json) list"

definition hex_digit :: "nat \<Rightarrow> char" where
  "hex_digit n = ''0123456789abcdef'' ! (n mod 16)"

definition escape_char :: "char \<Rightarrow> string" where
  "escape_char c =
     (if c = CHR 0x22 then [CHR 0x5C, CHR 0x22]
      else if c = CHR 0x5C then [CHR 0x5C, CHR 0x5C]
      else if c = CHR 0x08 then [CHR 0x5C, CHR ''b'']
      else if c = CHR 0x0C then [CHR 0x5C, CHR ''f'']
      else if c = CHR 0x0A then [CHR 0x5C, CHR ''n'']
      else if c = CHR 0x0D then [CHR 0x5C, CHR ''r'']
      else if c = CHR 0x09 then [CHR 0x5C, CHR ''t'']
      else if (of_char c :: nat) < 32 then
        [CHR 0x5C, CHR ''u'', CHR ''0'', CHR ''0'',
         hex_digit ((of_char c :: nat) div 16), hex_digit (of_char c)]
      else [c])"

definition quote :: "string \<Rightarrow> string" where
  "quote s = CHR 0x22 # concat (map escape_char s) @ [CHR 0x22]"

text \<open>
  The result of \<open>JSON.stringify\<close>: \<open>undefined\<close> for a value that has no JSON text, the
  text, or the \<open>TypeError\<close> of a circular structure (the stack holds the objects being
  written).
\<close>

datatype json_text = JsonUndefined | JsonText string | JsonCycle

definition array_text :: "json_text list \<Rightarrow> json_text" where
  "array_text rs =
     (if JsonCycle \<in> set rs then JsonCycle
      else JsonText (''['' @ join_with '',''
             (map (\<lambda>r. case r of JsonText t \<Rightarrow> t | _ \<Rightarrow> ''null'') rs) @ '']''))"

definition object_text :: "(string \<times> json_text) list \<Rightarrow> json_text" where
  "object_text rs =
     (if JsonCycle \<in> snd ` set rs then JsonCycle
      else JsonText (''{'' @ join_with '',''
             (concat (map (\<lambda>p. case snd p of JsonText t \<Rightarrow> [quote (fst p) @ '':'' @ t] | _ \<Rightarrow> []) rs))
             @ ''}''))"

function stringify :: "heap \<Rightarrow> addr list \<Rightarrow> val \<Rightarrow> json_text" where
  "stringify h stk Undefined = JsonUndefined"
| "stringify h stk Null = JsonText ''null''"
| "stringify h stk (Bool b) = JsonText (if b then ''true'' else ''false'')"
| "stringify h stk (Num n) = JsonText (show_int n)"
| "stringify h stk (Str s) = JsonText (quote s)"
| "stringify h stk (Ref a) =
     (if a \<in> set stk then JsonCycle
      else if \<not> a < length h then JsonUndefined
      else
        (case kind_of (h ! a) of
           Array xs \<Rightarrow> array_text (map (\<lambda>x. stringify h (a # stk) x) xs)
         | Date t \<Rightarrow> JsonText (quote (''Date '' @ show_int t))
         | _ \<Rightarrow>
             object_text
               (map (\<lambda>k. (k, stringify h (a # stk) (get_prop h (Ref a) k)))
                  (own_keys h (Ref a)))))"
  by pat_completeness auto

termination stringify
  by (relation "measure (\<lambda>(h, stk, v). length h - card (set stk \<inter> {..<length h}))")
     (auto intro: stack_measure)

definition JSON_stringify :: "heap \<Rightarrow> val \<Rightarrow> json_text" where
  "JSON_stringify h v = stringify h [] v"

subsection \<open>\<open>JSON.parse\<close>\<close>

definition is_json_ws :: "char \<Rightarrow> bool" where
  "is_json_ws c \<longleftrightarrow> c = CHR '' '' \<or> c = CHR 0x09 \<or> c = CHR 0x0A \<or> c = CHR 0x0D"

definition skip_ws :: "string \<Rightarrow> string" where
  "skip_ws s = dropWhile is_json_ws s"

definition hex_val :: "char \<Rightarrow> nat option" where
  "hex_val c = map_of (zip ''0123456789abcdef'' [0..<16] @ zip ''ABCDEF'' [10..<16]) c"

definition utf8 :: "nat \<Rightarrow> string" where
  "utf8 n =
     (if n < 128 then [char_of n]
      else if n < 2048 then [char_of (192 + n div 64), char_of (128 + n mod 64)]
      else [char_of (224 + n div 4096), char_of (128 + (n div 64) mod 64),
            char_of (128 + n mod 64)])"

definition simple_escape :: "char \<Rightarrow> char option" where
  "simple_escape e =
     map_of [(CHR 0x22, CHR 0x22), (CHR 0x5C, CHR 0x5C), (CHR ''/'', CHR ''/''),
             (CHR ''b'', CHR 0x08), (CHR ''f'', CHR 0x0C), (CHR ''n'', CHR 0x0A),
             (CHR ''r'', CHR 0x0D), (CHR ''t'', CHR 0x09)] e"

definition hex4 :: "string \<Rightarrow> nat option" where
  "hex4 ds =
     (if length ds = 4 \<and> list_all (\<lambda>d. hex_val d \<noteq> None) ds
      then Some (foldl (\<lambda>acc d. 16 * acc + the (hex_val d)) 0 ds) else None)"

text \<open>The characters of a string literal, after its opening quote.\<close>

function parse_string :: "string \<Rightarrow> string \<Rightarrow> (string \<times> string) option" where
  "parse_string acc [] = None"
| "parse_string acc (c # cs) =
     (if c = CHR 0x22 then Some (rev acc, cs)
      else if c = CHR 0x5C then
        (if cs = [] then None
         else if hd cs = CHR ''u'' then
           (case hex4 (take 4 (tl cs)) of
              None \<Rightarrow> None
            | Some n \<Rightarrow> parse_string (rev (utf8 n) @ acc) (drop 4 (tl cs)))
         else
           (case simple_escape (hd cs) of
              None \<Rightarrow> None
            | Some ch \<Rightarrow> parse_string (ch # acc) (tl cs)))
      else if (of_char c :: nat) < 32 then None
      else parse_string (c # acc) cs)"
  by pat_completeness auto
termination
  by (relation "measure (\<lambda>(acc, s). length s)") (auto simp: neq_Nil_conv)

text \<open>Numbers are integers in the model. A number with a fraction or an exponent is not
  read: the parse gives no result, where the language gives the number; and a long digit
  string is not rounded to a double. No theorem below parses such a text.\<close>

definition is_digit :: "char \<Rightarrow> bool" where
  "is_digit c \<longleftrightarrow> digit_val c \<noteq> None"

definition parse_number :: "string \<Rightarrow> (json \<times> string) option" where
  "parse_number s =
     (let neg = (s \<noteq> [] \<and> hd s = CHR ''-'');
          r = (if neg then tl s else s);
          ds = takeWhile is_digit r;
          rest = dropWhile is_digit r
      in if ds = [] \<or> (hd ds = CHR ''0'' \<and> 1 < length ds) then None
         else if rest \<noteq> [] \<and> hd rest \<in> set ''.eE'' then None
         else map_option (\<lambda>n. (JNum (if neg then - int n else int n), rest))
                (read_digits 0 ds))"

definition parse_literal :: "string \<Rightarrow> (json \<times> string) option" where
  "parse_literal s =
     (if take 4 s = ''true'' then Some (JBool True, drop 4 s)
      else if take 5 s = ''false'' then Some (JBool False, drop 5 s)
      else if take 4 s = ''null'' then Some (JNull, drop 4 s)
      else parse_number s)"

text \<open>
  The first argument of \<open>parse_value\<close> bounds the depth of nesting and the second
  argument of the two loops the number of elements or members read; every one of them
  takes at least one character, so the length of the text is enough for both.
\<close>

type_synonym parser = "string \<Rightarrow> (json \<times> string) option"

fun parse_elems :: "parser \<Rightarrow> nat \<Rightarrow> json list \<Rightarrow> parser" where
  "parse_elems self 0 acc s = None"
| "parse_elems self (Suc m) acc s =
     (case self s of
        None \<Rightarrow> None
      | Some (j, r) \<Rightarrow>
          (case skip_ws r of
             [] \<Rightarrow> None
           | c # r' \<Rightarrow>
               if c = CHR '','' then parse_elems self m (acc @ [j]) r'
               else if c = CHR '']'' then Some (JArr (acc @ [j]), r')
               else None))"

fun parse_members :: "parser \<Rightarrow> nat \<Rightarrow> (string \<times> json) list \<Rightarrow> parser" where
  "parse_members self 0 acc s = None"
| "parse_members self (Suc m) acc s =
     (case skip_ws s of
        [] \<Rightarrow> None
      | c # r \<Rightarrow>
          if c = CHR 0x22 then
            (case parse_string [] r of
               None \<Rightarrow> None
             | Some (k, r1) \<Rightarrow>
                 (if take 1 (skip_ws r1) = '':'' then
                    (case self (tl (skip_ws r1)) of
                       None \<Rightarrow> None
                     | Some (j, r3) \<Rightarrow>
                         (case skip_ws r3 of
                            [] \<Rightarrow> None
                          | c3 # r4 \<Rightarrow>
                              if c3 = CHR '','' then parse_members self m (acc @ [(k, j)]) r4
                              else if c3 = CHR ''}'' then Some (JObj (acc @ [(k, j)]), r4)
                              else None))
                  else None))
          else None)"

primrec parse_value :: "nat \<Rightarrow> parser" where
  "parse_value 0 s = None"
| "parse_value (Suc n) s =
     (case skip_ws s of
        [] \<Rightarrow> None
      | c # r \<Rightarrow>
          if c = CHR ''['' then
            (if take 1 (skip_ws r) = '']'' then Some (JArr [], tl (skip_ws r))
             else parse_elems (parse_value n) (length r) [] r)
          else if c = CHR ''{'' then
            (if take 1 (skip_ws r) = ''}'' then Some (JObj [], tl (skip_ws r))
             else parse_members (parse_value n) (length r) [] r)
          else if c = CHR 0x22 then
            map_option (\<lambda>p. (JStr (fst p), snd p)) (parse_string [] r)
          else parse_literal (c # r))"

text \<open>\<open>None\<close> is the \<open>SyntaxError\<close> of \<open>JSON.parse\<close>.\<close>

definition JSON_parse_text :: "string \<Rightarrow> json option" where
  "JSON_parse_text s =
     (case parse_value (Suc (length s)) s of
        None \<Rightarrow> None
      | Some (j, r) \<Rightarrow> if skip_ws r = [] then Some j else None)"

text \<open>The objects of a parsed text are new; a repeated key keeps its place and takes the last value.\<close>

fun alloc_json :: "json \<Rightarrow> heap \<Rightarrow> val \<times> heap"
  and alloc_elems :: "json list \<Rightarrow> heap \<Rightarrow> val list \<times> heap"
  and alloc_members :: "(string \<times> json) list \<Rightarrow> props \<Rightarrow> heap \<Rightarrow> props \<times> heap" where
  "alloc_json JNull h = (Null, h)"
| "alloc_json (JBool b) h = (Bool b, h)"
| "alloc_json (JNum n) h = (Num n, h)"
| "alloc_json (JStr s) h = (Str s, h)"
| "alloc_json (JArr js) h =
     (case alloc_elems js h of
        (vs, h1) \<Rightarrow> (case alloc h1 (Obj (Array vs) []) of (h2, a) \<Rightarrow> (Ref a, h2)))"
| "alloc_json (JObj ms) h =
     (case alloc_members ms [] h of
        (ps, h1) \<Rightarrow> (case alloc h1 (Obj Plain ps) of (h2, a) \<Rightarrow> (Ref a, h2)))"
| "alloc_elems [] h = ([], h)"
| "alloc_elems (j # js) h =
     (case alloc_json j h of
        (v, h1) \<Rightarrow> (case alloc_elems js h1 of (vs, h2) \<Rightarrow> (v # vs, h2)))"
| "alloc_members [] ps h = (ps, h)"
| "alloc_members (m # ms) ps h =
     (case alloc_json (snd m) h of
        (v, h1) \<Rightarrow> alloc_members ms (upd_props ps (fst m) v) h1)"

definition JSON_parse :: "string \<Rightarrow> heap \<Rightarrow> val res" where
  "JSON_parse s h =
     (case JSON_parse_text s of
        None \<Rightarrow> Throw SyntaxError h
      | Some j \<Rightarrow> (case alloc_json j h of (v, h') \<Rightarrow> Ret v h'))"

section \<open>The navigation composable\<close>

text \<open>
  \<open>useNavigable\<close> closes over the route and over the one-slot queue \<open>_queue\<close>. The state
  of the model holds the store, the object \<open>route.query\<close>, the path that \<open>useUrl\<close> gives
  for the current route, the queue, the scroll targets handed to \<open>nextTick\<close>, and the
  calls of \<open>navigateTo\<close> made so far (path and query object; always with \<open>replace\<close>).
  When the handler of the queue runs is decided by \<open>watch\<close> and \<open>useDebounceFn\<close>, which
  belong to other packages; \<open>flush\<close> is that handler, applied to the queued arguments.
\<close>

record nav_state =
  store :: heap
  route_query :: val
  self_path :: string
  queue :: "val list option"
  ticks :: "val list"
  visited :: "(string \<times> val) list"

type_synonym nav_result = "(error \<times> nav_state) + nav_state"

definition bind_res :: "'a res \<Rightarrow> ('a \<Rightarrow> heap \<Rightarrow> 'b res) \<Rightarrow> 'b res" where
  "bind_res r f = (case r of Ret x h \<Rightarrow> f x h | Throw e h \<Rightarrow> Throw e h)"

text \<open>\<open>v?.k\<close>\<close>

definition opt_get :: "heap \<Rightarrow> val \<Rightarrow> string \<Rightarrow> val" where
  "opt_get h v k = (if nullish v then Undefined else get_prop h v k)"

text \<open>\<open>v || {}\<close>\<close>

definition or_empty :: "heap \<Rightarrow> val \<Rightarrow> heap \<times> val" where
  "or_empty h v =
     (if truthy v then (h, v) else (case alloc h (Obj Plain []) of (h', a) \<Rightarrow> (h', Ref a)))"

definition navigate :: "nav_state \<Rightarrow> val list \<Rightarrow> nav_state" where
  "navigate st params = st\<lparr>queue := Some params\<rparr>"

subsection \<open>\<open>_generateQueryParams\<close>\<close>

definition parse_query_callback :: "addr \<Rightarrow> callback" where
  "parse_query_callback qp value key index h =
     (case value of
        Str s \<Rightarrow>
          (case JSON_parse s h of
             Throw e h' \<Rightarrow> Ret () h'
           | Ret v h' \<Rightarrow> set_prop h' (Ref qp) key v)
      | _ \<Rightarrow> set_prop h (Ref qp) key value)"

definition config_callback :: "addr \<Rightarrow> string \<Rightarrow> callback" where
  "config_callback qp syscode value key index h =
     set_prop h (get_prop h (Ref qp) syscode) key value"

definition stringify_callback :: "addr \<Rightarrow> callback" where
  "stringify_callback qp value key index h =
     (case JSON_stringify h value of
        JsonCycle \<Rightarrow> Throw TypeError h
      | JsonUndefined \<Rightarrow> set_prop h (Ref qp) key Undefined
      | JsonText t \<Rightarrow> set_prop h (Ref qp) key (Str t))"

text \<open>The body of \<open>_generateQueryParams\<close> up to the serialisation: it returns \<open>queryParams\<close>.\<close>

definition query_params_object :: "heap \<Rightarrow> val \<Rightarrow> string \<Rightarrow> val \<Rightarrow> val \<Rightarrow> addr res" where
  "query_params_object h rq syscode pagination config =
     (case alloc h (Obj Plain []) of
        (h0, qp) \<Rightarrow>
          bind_res (ITERATE rq (parse_query_callback qp) h0) (\<lambda>u h1.
          bind_res (case or_empty h1 (get_prop h1 (Ref qp) syscode) of
                      (h1', v) \<Rightarrow> set_prop h1' (Ref qp) syscode v) (\<lambda>u h2.
          bind_res (if truthy config then ITERATE config (config_callback qp syscode) h2
                    else Ret () h2) (\<lambda>u h3.
          (case alloc h3 (Obj Plain [(''page'', opt_get h3 pagination ''page''),
                                     (''limit'', opt_get h3 pagination ''limit'')]) of
             (h3', pg) \<Rightarrow>
               bind_res (set_prop h3' (get_prop h3' (Ref qp) syscode) ''pagination'' (Ref pg))
                 (\<lambda>u h4. Ret qp h4))))))"

definition generateQueryParams :: "heap \<Rightarrow> val \<Rightarrow> string \<Rightarrow> val \<Rightarrow> val \<Rightarrow> val res" where
  "generateQueryParams h rq syscode pagination config =
     bind_res (query_params_object h rq syscode pagination config) (\<lambda>qp h4.
     bind_res (ITERATE (Ref qp) (stringify_callback qp) h4) (\<lambda>u h5. Ret (Ref qp) h5))"

subsection \<open>\<open>_navigate\<close> and the handler of the queue\<close>

fun copy_fields :: "val \<Rightarrow> val \<Rightarrow> string list \<Rightarrow> heap \<Rightarrow> unit res" where
  "copy_fields config cp [] h = Ret () h"
| "copy_fields config cp (k # ks) h =
     bind_res (set_prop h cp k (get_prop h config k)) (\<lambda>u h'. copy_fields config cp ks h')"

text \<open>A property key that is not a string is converted to one.\<close>

definition key_of :: "heap \<Rightarrow> val \<Rightarrow> string" where
  "key_of h v = (case v of Str s \<Rightarrow> s | _ \<Rightarrow> to_string h v)"

definition finish :: "nav_state \<Rightarrow> val res \<Rightarrow> nav_result" where
  "finish st r =
     (case r of
        Throw e h \<Rightarrow> Inl (e, st\<lparr>store := h\<rparr>)
      | Ret query h \<Rightarrow> Inr (st\<lparr>store := h, visited := visited st @ [(self_path st, query)]\<rparr>))"

definition navigate_now :: "nat \<Rightarrow> nav_state \<Rightarrow> val \<Rightarrow> val \<Rightarrow> nav_result option" where
  "navigate_now fuel st config params =
     (if truthy (opt_get (store st) config ''syscode'') then
        (case CLONE fuel params (store st) of
           None \<Rightarrow> None
         | Some r \<Rightarrow>
             Some (finish st
               (bind_res r (\<lambda>c h1.
                  (case or_empty h1 c of
                     (h2, configParams) \<Rightarrow>
                       bind_res (copy_fields config configParams
                                   [''sort'', ''cols'', ''displayFields'', ''panel'', ''tab'',
                                    ''fix'', ''mode''] h2) (\<lambda>u h3.
                       (case or_empty h3 (get_prop h3 config ''pagination'') of
                          (h4, pagination) \<Rightarrow>
                            generateQueryParams h4 (route_query st)
                              (key_of h4 (get_prop h4 config ''syscode''))
                              pagination configParams)))))))
      else Some (Inr st))"

definition arg :: "val list \<Rightarrow> nat \<Rightarrow> val" where
  "arg params i = (if i < length params then params ! i else Undefined)"

definition flush :: "nat \<Rightarrow> nav_state \<Rightarrow> nav_result option" where
  "flush fuel st =
     (case queue st of
        None \<Rightarrow> Some (Inr st)
      | Some params \<Rightarrow> navigate_now fuel st (arg params 0) (arg params 1))"

subsection \<open>The mutators\<close>

definition schedule_scroll :: "val \<Rightarrow> nav_state \<Rightarrow> nav_state" where
  "schedule_scroll scrollTo st = (if truthy scrollTo then st\<lparr>ticks := ticks st @ [scrollTo]\<rparr> else st)"

definition onPageChange :: "nav_state \<Rightarrow> val \<Rightarrow> val \<Rightarrow> val \<Rightarrow> nav_result" where
  "onPageChange st config value scrollTo =
     (if truthy (opt_get (store st) config ''syscode'') then
        (case or_empty (store st) (get_prop (store st) config ''pagination'') of
           (h1, pagination) \<Rightarrow>
             (case set_prop h1 pagination ''page'' value of
                Throw e h' \<Rightarrow> Inl (e, st\<lparr>store := h'\<rparr>)
              | Ret u h2 \<Rightarrow>
                  Inr (schedule_scroll scrollTo (navigate (st\<lparr>store := h2\<rparr>) [config]))))
      else Inr st)"

definition onLimitChange :: "nav_state \<Rightarrow> val \<Rightarrow> val \<Rightarrow> val \<Rightarrow> nav_result" where
  "onLimitChange st config value scrollTo =
     (if truthy (opt_get (store st) config ''syscode'') then
        (case or_empty (store st) (get_prop (store st) config ''pagination'') of
           (h1, pagination) \<Rightarrow>
             (case bind_res (set_prop h1 pagination ''limit'' value)
                     (\<lambda>u h2. set_prop h2 pagination ''page'' (Num 1)) of
                Throw e h' \<Rightarrow> Inl (e, st\<lparr>store := h'\<rparr>)
              | Ret u h3 \<Rightarrow>
                  Inr (schedule_scroll scrollTo (navigate (st\<lparr>store := h3\<rparr>) [config]))))
      else Inr st)"

text \<open>\<open>value[0]\<close> throws when \<open>value\<close> is \<open>undefined\<close> or \<open>null\<close>.\<close>

definition onSort :: "nav_state \<Rightarrow> val \<Rightarrow> val \<Rightarrow> nav_result" where
  "onSort st config value =
     (if truthy (opt_get (store st) config ''syscode'') then
        (if nullish value then Inl (TypeError, st)
         else
           (case (if is_array (store st) (get_prop (store st) value ''0'') then (store st, value)
                  else if truthy (get_prop (store st) value ''length'')
                  then (case alloc (store st) (Obj (Array [value]) []) of (h', a) \<Rightarrow> (h', Ref a))
                  else (case alloc (store st) (Obj (Array []) []) of (h', a) \<Rightarrow> (h', Ref a))) of
              (h1, pairs) \<Rightarrow>
                (case set_prop h1 config ''sort'' pairs of
                   Throw e h' \<Rightarrow> Inl (e, st\<lparr>store := h'\<rparr>)
                 | Ret u h2 \<Rightarrow> Inr (navigate (st\<lparr>store := h2\<rparr>) [config]))))
      else Inr st)"

section \<open>The tree behind a value\<close>

text \<open>
  Deep equality compares what two values unfold to. \<open>deep n h v\<close> unfolds \<open>v\<close> in the
  store \<open>h\<close> to a tree, following references to depth \<open>n\<close>; it is \<open>None\<close> when the
  structure is deeper than \<open>n\<close>, so a cyclic structure has no tree for any \<open>n\<close>. A file or
  a file list unfolds to its address: it is a handle on an external resource, the same
  only if it is that very object. An object with a repeated key, or an array, date or
  pattern with extra properties, is not a nested structure in the sense of the
  specification and has no tree. \<open>touched n h v\<close> is the set of addresses that the
  unfolding visits.
\<close>

datatype tree =
    TUndefined
  | TNull
  | TBool bool
  | TNum int
  | TStr string
  | TArray "tree list"
  | TObject "(string \<times> tree) list"
  | TDate int
  | TRegExp string string
  | THandle addr

fun opt_map :: "('a \<Rightarrow> 'b option) \<Rightarrow> 'a list \<Rightarrow> 'b list option" where
  "opt_map f [] = Some []"
| "opt_map f (x # xs) =
     (case f x of
        None \<Rightarrow> None
      | Some y \<Rightarrow> (case opt_map f xs of None \<Rightarrow> None | Some ys \<Rightarrow> Some (y # ys)))"

definition deep_obj :: "(val \<Rightarrow> tree option) \<Rightarrow> addr \<Rightarrow> obj \<Rightarrow> tree option" where
  "deep_obj self a ob =
     (case ob of
        Obj Plain ps \<Rightarrow>
          if distinct (map fst ps)
          then map_option (\<lambda>ts. TObject (zip (map fst ps) ts)) (opt_map self (map snd ps))
          else None
      | Obj (Array xs) ps \<Rightarrow> if ps = [] then map_option TArray (opt_map self xs) else None
      | Obj (Date t) ps \<Rightarrow> if ps = [] then Some (TDate t) else None
      | Obj (RegExp src fl) ps \<Rightarrow> if ps = [] then Some (TRegExp src fl) else None
      | Obj (File nm) ps \<Rightarrow> Some (THandle a)
      | Obj (FileList fs) ps \<Rightarrow> Some (THandle a))"

primrec deep :: "nat \<Rightarrow> heap \<Rightarrow> val \<Rightarrow> tree option" where
  "deep 0 h v = None"
| "deep (Suc n) h v =
     (case v of
        Undefined \<Rightarrow> Some TUndefined
      | Null \<Rightarrow> Some TNull
      | Bool b \<Rightarrow> Some (TBool b)
      | Num i \<Rightarrow> Some (TNum i)
      | Str s \<Rightarrow> Some (TStr s)
      | Ref a \<Rightarrow> if a < length h then deep_obj (deep n h) a (h ! a) else None)"

definition children :: "obj \<Rightarrow> val list" where
  "children ob =
     (case ob of Obj Plain ps \<Rightarrow> map snd ps | Obj (Array xs) ps \<Rightarrow> xs | _ \<Rightarrow> [])"

primrec touched :: "nat \<Rightarrow> heap \<Rightarrow> val \<Rightarrow> addr set" where
  "touched 0 h v = {}"
| "touched (Suc n) h v =
     (case v of
        Ref a \<Rightarrow>
          insert a (if a < length h then (\<Union>c \<in> set (children (h ! a)). touched n h c) else {})
      | _ \<Rightarrow> {})"

text \<open>A tree in which no object has a key \<open>__proto__\<close>.\<close>

primrec proto_free :: "tree \<Rightarrow> bool" where
  "proto_free TUndefined = True"
| "proto_free TNull = True"
| "proto_free (TBool b) = True"
| "proto_free (TNum i) = True"
| "proto_free (TStr s) = True"
| "proto_free (TArray ts) = list_all proto_free ts"
| "proto_free (TObject kvs) =
     (''__proto__'' \<notin> set (map fst kvs) \<and> list_all snd (map (map_prod id proto_free) kvs))"
| "proto_free (TDate t) = True"
| "proto_free (TRegExp src fl) = True"
| "proto_free (THandle a) = True"

definition handle :: "obj \<Rightarrow> bool" where
  "handle ob = (case kind_of ob of File nm \<Rightarrow> True | FileList fs \<Rightarrow> True | _ \<Rightarrow> False)"

text \<open>
  \<open>clone_ok\<close> is the contract of a nested call of \<open>CLONE\<close> on a structure without a key
  \<open>__proto__\<close>: the store is only extended, the copy unfolds to the same tree, and the
  copy reaches only new objects and handles.
  \<open>kept\<close> is what the loops of \<open>CLONE\<close> know about a copy already stored in the new object,
  which is the one at address \<open>length h\<close>.
\<close>

definition clone_ok :: "nat \<Rightarrow> (val \<Rightarrow> heap \<Rightarrow> val res option) \<Rightarrow> bool" where
  "clone_ok n self \<longleftrightarrow>
     (\<forall>h x t. deep n h x = Some t \<longrightarrow> proto_free t \<longrightarrow>
        (\<exists>ext x'. self x h = Some (Ret x' (h @ ext)) \<and> deep n (h @ ext) x' = Some t
           \<and> (\<forall>b \<in> touched n (h @ ext) x'. length h \<le> b \<or> handle (h ! b))))"

definition kept :: "nat \<Rightarrow> heap \<Rightarrow> heap \<Rightarrow> val \<Rightarrow> val \<Rightarrow> bool" where
  "kept n h H v' v \<longleftrightarrow>
     deep n h v \<noteq> None \<and> deep n H v' = deep n h v
     \<and> (\<forall>b \<in> touched n H v'. b \<noteq> length h \<and> (length h \<le> b \<or> handle (h ! b)))"

section \<open>Separate nested mappings\<close>










section \<open>Properties\<close>

subsection \<open>Nested lookup\<close>

lemma walk_path_falsy: "\<not> truthy v \<Longrightarrow> walk_path h v segs = v"
  unfolding walk_path_def by (induction segs) auto

lemma walk_path_append: "walk_path h v (xs @ ys) = walk_path h (walk_path h v xs) ys"
  by (simp add: walk_path_def)

lemma walk_path_stuck:
  assumes "\<not> truthy (walk_path h item (take i segs))"
  shows "walk_path h item segs = walk_path h item (take i segs)"
proof -
  have "walk_path h item segs = walk_path h item (take i segs @ drop i segs)"
    by simp
  also have "\<dots> = walk_path h (walk_path h item (take i segs)) (drop i segs)"
    by (rule walk_path_append)
  also have "\<dots> = walk_path h item (take i segs)"
    using assms by (rule walk_path_falsy)
  finally show ?thesis .
qed

lemma show_nat_0: "show_nat 0 = ''0''"
  by (simp add: show_nat.simps)

lemma GET_VALUE_stuck:
  assumes "truthy item" and "p \<noteq> []"
    and "\<not> truthy (walk_path h item (take i (js_split p (delim_of delimiter))))"
  shows "GET_VALUE h item name (Some p) delimiter =
    (let v = walk_path h item (take i (js_split p (delim_of delimiter)))
     in if IS_DEFINED v \<and> TRIM (to_string h v) \<noteq> [] then v else Undefined)"
  using assms walk_path_stuck [OF assms(3)]
  by (simp add: GET_VALUE_def str_truthy_def Let_def)

lemma GET_VALUE_result:
  "GET_VALUE h item name path delimiter \<noteq> Undefined \<Longrightarrow>
   TRIM (to_string h (GET_VALUE h item name path delimiter)) \<noteq> []"
  by (auto simp: GET_VALUE_def Let_def split: if_splits)

text \<open>
  Claim C6 at the input \<open>GET_VALUE({a: {b: 0}}, "c", "a.b")\<close>: the segment \<open>b\<close> resolves
  to the falsy \<open>0\<close>, the reducer \<open>accum && accum[curr]\<close> hands that \<open>0\<close> on as the value, the
  guard \<open>value && name\<close> then skips the read of \<open>c\<close>, and \<open>0\<close> is defined and not blank: the
  call returns \<open>0\<close>, not \<open>undefined\<close>. With \<open>false\<close> in place of \<open>0\<close> it returns \<open>false\<close>.
  The same call with a truthy number or \<open>true\<close> under \<open>b\<close>, which have no property \<open>c\<close>
  either, returns \<open>undefined\<close>, and so does the call when \<open>b\<close> holds \<open>null\<close> or the empty
  string or is missing.
\<close>

theorem GET_VALUE_falsy_segment_returned:
  "GET_VALUE [Obj Plain [(''b'', Num 0)], Obj Plain [(''a'', Ref 0)]] (Ref 1)
        (Some ''c'') (Some ''a.b'') None = Num 0
   \<and> GET_VALUE [Obj Plain [(''b'', Bool False)], Obj Plain [(''a'', Ref 0)]] (Ref 1)
        (Some ''c'') (Some ''a.b'') None = Bool False
   \<and> GET_VALUE [Obj Plain [(''b'', Num 5)], Obj Plain [(''a'', Ref 0)]] (Ref 1)
        (Some ''c'') (Some ''a.b'') None = Undefined
   \<and> GET_VALUE [Obj Plain [(''b'', Bool True)], Obj Plain [(''a'', Ref 0)]] (Ref 1)
        (Some ''c'') (Some ''a.b'') None = Undefined
   \<and> GET_VALUE [Obj Plain [(''b'', Null)], Obj Plain [(''a'', Ref 0)]] (Ref 1)
        (Some ''c'') (Some ''a.b'') None = Undefined
   \<and> GET_VALUE [Obj Plain [(''b'', Str [])], Obj Plain [(''a'', Ref 0)]] (Ref 1)
        (Some ''c'') (Some ''a.b'') None = Undefined
   \<and> GET_VALUE [Obj Plain [], Obj Plain [(''a'', Ref 0)]] (Ref 1)
        (Some ''c'') (Some ''a.b'') None = Undefined"
  by code_simp

text \<open>
  What holds of the lookup in general, for reads that \<open>get_prop\<close> answers as the language
  does (segments and names that are not inherited members of the value they are read
  from). When the walk along the path reaches, after any
  number \<open>i\<close> of segments, a value that is \<open>undefined\<close>, \<open>null\<close> or the empty string, the
  result is \<open>undefined\<close>; when it reaches \<open>0\<close> or \<open>false\<close>, the result is that value. A value
  found at the end whose string form is blank after trimming gives \<open>undefined\<close>, with a
  path and without one, and a result other than \<open>undefined\<close> is never blank.
\<close>

lemma GET_VALUE_along_path:
  "(truthy item \<and> p \<noteq> [] \<and> v = walk_path h item (take i (js_split p (delim_of delimiter)))
      \<and> (v = Undefined \<or> v = Null \<or> v = Str [])
      \<longrightarrow> GET_VALUE h item name (Some p) delimiter = Undefined)
   \<and> (truthy item \<and> p \<noteq> [] \<and> v = walk_path h item (take i (js_split p (delim_of delimiter)))
      \<and> (v = Num 0 \<or> v = Bool False)
      \<longrightarrow> GET_VALUE h item name (Some p) delimiter = v)
   \<and> (GET_VALUE h item name path delimiter \<noteq> Undefined
      \<longrightarrow> TRIM (to_string h (GET_VALUE h item name path delimiter)) \<noteq> [])"
proof -
  have a: "GET_VALUE h item name (Some p) delimiter = Undefined"
    if "truthy item" "p \<noteq> []" "v = walk_path h item (take i (js_split p (delim_of delimiter)))"
      "v = Undefined \<or> v = Null \<or> v = Str []"
    using that GET_VALUE_stuck [of item p h i delimiter name]
    by (auto simp: IS_DEFINED_def TRIM_def Let_def to_string_def)
  have b: "GET_VALUE h item name (Some p) delimiter = v"
    if "truthy item" "p \<noteq> []" "v = walk_path h item (take i (js_split p (delim_of delimiter)))"
      "v = Num 0 \<or> v = Bool False"
    using that GET_VALUE_stuck [of item p h i delimiter name]
    by (auto simp: IS_DEFINED_def TRIM_def Let_def to_string_def show_int_def show_nat_0 is_space_def)
  show ?thesis
    using a b GET_VALUE_result [of h item name path delimiter] by blast
qed

lemma GET_VALUE_blank_at_path:
  assumes "truthy item" and "p \<noteq> []" and "nm \<noteq> []"
    and "truthy (walk_path h item (js_split p (delim_of delimiter)))"
    and "TRIM (to_string h (get_prop h (walk_path h item (js_split p (delim_of delimiter))) nm)) = []"
  shows "GET_VALUE h item (Some nm) (Some p) delimiter = Undefined"
  using assms by (simp add: GET_VALUE_def str_truthy_def Let_def)

lemma GET_VALUE_blank_at_name:
  assumes "truthy item" and "nm \<noteq> []"
    and "TRIM (to_string h (get_prop h item nm)) = []"
  shows "GET_VALUE h item (Some nm) None delimiter = Undefined"
  using assms by (simp add: GET_VALUE_def str_truthy_def Let_def)

text \<open>
  Claim C10. For every item that \<open>IS_OBJECT\<close> accepts as a mapping, \<open>GET_OBJECT_PARAM\<close>
  called without a path (or with the empty path) returns \<open>undefined\<close>, not the item: it
  delegates to \<open>GET_VALUE\<close> with the empty name. Every other item is returned verbatim,
  whatever the path. With a path the resolved object can be returned:
  \<open>GET_OBJECT_PARAM({a: {b: "x"}}, "a")\<close> is the inner object.
\<close>

theorem GET_OBJECT_PARAM_without_path:
  "(IS_OBJECT h item \<longrightarrow> GET_OBJECT_PARAM h item None delimiter = Undefined)
   \<and> (IS_OBJECT h item \<longrightarrow> GET_OBJECT_PARAM h item (Some []) delimiter = Undefined)
   \<and> (\<not> IS_OBJECT h item \<longrightarrow> GET_OBJECT_PARAM h item path delimiter = item)
   \<and> GET_OBJECT_PARAM [Obj Plain [(''b'', Str ''x'')], Obj Plain [(''a'', Ref 0)]] (Ref 1)
        (Some ''a'') None = Ref 0"
proof -
  have a: "GET_VALUE h item (Some []) None delimiter = Undefined"
    by (simp add: GET_VALUE_def str_truthy_def IS_DEFINED_def Let_def)
  have b: "GET_VALUE h item (Some []) (Some []) delimiter = Undefined"
    by (simp add: GET_VALUE_def str_truthy_def IS_DEFINED_def Let_def)
  have c: "GET_OBJECT_PARAM [Obj Plain [(''b'', Str ''x'')], Obj Plain [(''a'', Ref 0)]] (Ref 1)
        (Some ''a'') None = Ref 0"
    by code_simp
  show ?thesis using a b c by (simp add: GET_OBJECT_PARAM_def)
qed

theorem GET_OBJECT_PARAM_without_path_witness:
  "IS_OBJECT [Obj Plain [(''a'', Num 1)]] (Ref 0)
   \<and> GET_OBJECT_PARAM [Obj Plain [(''a'', Num 1)]] (Ref 0) None None = Undefined
   \<and> GET_OBJECT_PARAM [Obj Plain [(''a'', Num 1)]] (Ref 0) (Some []) None = Undefined
   \<and> \<not> IS_OBJECT [Obj Plain [(''a'', Num 1)]] (Num 5)
   \<and> GET_OBJECT_PARAM [Obj Plain [(''a'', Num 1)]] (Num 5) (Some ''a'') None = Num 5"
proof -
  have o: "IS_OBJECT [Obj Plain [(''a'', Num 1)]] (Ref 0)"
    by (simp add: IS_OBJECT_def obj_at_def)
  have n: "\<not> IS_OBJECT [Obj Plain [(''a'', Num 1)]] (Num 5)"
    by (simp add: IS_OBJECT_def)
  show ?thesis
    using o n GET_OBJECT_PARAM_without_path [of "[Obj Plain [(''a'', Num 1)]]" "Ref 0" None]
      GET_OBJECT_PARAM_without_path [of "[Obj Plain [(''a'', Num 1)]]" "Num 5" None "Some ''a''"]
    by simp
qed

subsection \<open>Dotted keys\<close>

text \<open>
  Claim C7 at the input \<open>{a: 5, "a.b": 1}\<close>: the segment \<open>a\<close> holds the truthy primitive
  \<open>5\<close>, the reducer assigns \<open>5["b"] = 1\<close>, and in strict mode that assignment throws a
  \<open>TypeError\<close>. The exception leaves \<open>CONVERT_DOT_TO_OBJECT\<close> before the dotted key is
  deleted, so the mapping is as it was. Nothing is dropped silently.
\<close>

theorem CONVERT_DOT_TO_OBJECT_truthy_primitive_throws:
  "CONVERT_DOT_TO_OBJECT (Ref 0) [Obj Plain [(''a'', Num 5), (''a.b'', Num 1)]]
   = Throw TypeError [Obj Plain [(''a'', Num 5), (''a.b'', Num 1)]]"
  by code_simp

text \<open>The sibling case of a falsy primitive is the one that drops the assignment silently.\<close>

lemma CONVERT_DOT_TO_OBJECT_falsy_primitive_drops:
  "CONVERT_DOT_TO_OBJECT (Ref 0) [Obj Plain [(''a'', Num 0), (''a.b'', Num 1)]]
   = Ret () [Obj Plain [(''a'', Num 0)]]"
  by code_simp

lemma CONVERT_DOT_TO_OBJECT_expands:
  "CONVERT_DOT_TO_OBJECT (Ref 0) [Obj Plain [(''a.b'', Num 1), (''a.c'', Num 2)]]
   = Ret () [Obj Plain [(''a'', Ref 1)], Obj Plain [(''b'', Num 1), (''c'', Num 2)]]"
  by code_simp

subsection \<open>Deep merge\<close>

lemma MERGE_returns_target:
  "MERGE n target source h = Some (Ret r h') \<Longrightarrow> r = target"
  by (cases n) (auto split: if_splits option.splits res.splits prod.splits)

text \<open>
  Claim C4 at the input \<open>MERGE(undefined, {a: 1})\<close>: the keys of the source are copied
  onto a fresh object, which is then dropped, and the call returns its first argument,
  \<open>undefined\<close>. The caller gets no mapping with the keys of the source.
\<close>

theorem MERGE_absent_target_returns_absent:
  "MERGE 2 Undefined (Ref 0) [Obj Plain [(''a'', Num 1)]]
   = Some (Ret Undefined [Obj Plain [(''a'', Num 1)], Obj Plain [(''a'', Num 1)]])"
  by code_simp

subsection \<open>The mutators and the queue\<close>

text \<open>
  Claim C1, as stated, fails: with \<open>config.syscode\<close> undefined the mutators do not touch
  the configuration either. For \<open>config = {pagination: {page: 1, limit: 10}}\<close> the call
  \<open>onPageChange(config, 2)\<close> leaves \<open>config.pagination.page\<close> at \<open>1\<close>.
\<close>

theorem onPageChange_no_syscode_counterexample:
  "opt_get [Obj Plain [(''page'', Num 1), (''limit'', Num 10)], Obj Plain [(''pagination'', Ref 0)]]
      (Ref 1) ''syscode'' = Undefined
   \<and> (case onPageChange
        \<lparr>store = [Obj Plain [(''page'', Num 1), (''limit'', Num 10)],
                  Obj Plain [(''pagination'', Ref 0)]],
         route_query = Undefined, self_path = ''/'', queue = None, ticks = [], visited = []\<rparr>
        (Ref 1) (Num 2) Undefined of
        Inr st' \<Rightarrow> get_prop (store st') (get_prop (store st') (Ref 1) ''pagination'') ''page'' \<noteq> Num 2
      | Inl x \<Rightarrow> False)"
  by code_simp

text \<open>
  Claim C1, amended. For every config with \<open>config.syscode\<close> undefined, \<open>onPageChange\<close>,
  \<open>onLimitChange\<close> and \<open>onSort\<close> change nothing at all: the store (so \<open>config.pagination\<close>
  and \<open>config.sort\<close>), the queue, the scheduled scrolls and the navigations are as
  before. \<open>navigate\<close> only puts its arguments into the queue, and the handler of the
  queue, run on them, changes nothing: no navigation is performed.
\<close>

theorem no_syscode_no_effect:
  assumes "opt_get (store st) config ''syscode'' = Undefined"
  shows "onPageChange st config value scrollTo = Inr st
    \<and> onLimitChange st config value scrollTo = Inr st
    \<and> onSort st config value = Inr st
    \<and> navigate st (config # rest) = st\<lparr>queue := Some (config # rest)\<rparr>
    \<and> flush fuel (navigate st (config # rest)) = Some (Inr (navigate st (config # rest)))"
  using assms
  by (simp add: onPageChange_def onLimitChange_def onSort_def navigate_def flush_def
      navigate_now_def arg_def)

theorem no_syscode_no_effect_witness:
  "opt_get [Obj Plain [(''page'', Num 1), (''limit'', Num 10)], Obj Plain [(''pagination'', Ref 0)]]
      (Ref 1) ''syscode'' = Undefined
   \<and> flush 1 (navigate \<lparr>store = [Obj Plain [(''page'', Num 1), (''limit'', Num 10)],
                  Obj Plain [(''pagination'', Ref 0)]],
         route_query = Undefined, self_path = ''/'', queue = None, ticks = [], visited = []\<rparr> [Ref 1])
     = Some (Inr \<lparr>store = [Obj Plain [(''page'', Num 1), (''limit'', Num 10)],
                  Obj Plain [(''pagination'', Ref 0)]],
         route_query = Undefined, self_path = ''/'', queue = Some [Ref 1], ticks = [], visited = []\<rparr>)"
proof -
  let ?st = "\<lparr>store = [Obj Plain [(''page'', Num 1), (''limit'', Num 10)],
                  Obj Plain [(''pagination'', Ref 0)]],
         route_query = Undefined, self_path = ''/'', queue = None, ticks = [], visited = []\<rparr>"
  have a: "opt_get (store ?st) (Ref 1) ''syscode'' = Undefined"
    by code_simp
  have f: "flush 1 (navigate ?st [Ref 1]) = Some (Inr (navigate ?st [Ref 1]))"
    using no_syscode_no_effect [OF a, of "Num 2" Undefined "[]" 1] by (elim conjE)
  have n: "navigate ?st [Ref 1] = ?st\<lparr>queue := Some [Ref 1]\<rparr>"
    by (simp only: navigate_def)
  have a': "opt_get [Obj Plain [(''page'', Num 1), (''limit'', Num 10)], Obj Plain [(''pagination'', Ref 0)]]
      (Ref 1) ''syscode'' = Undefined"
    using a by (simp only: nav_state.simps)
  have r: "?st\<lparr>queue := Some [Ref 1]\<rparr> = \<lparr>store = [Obj Plain [(''page'', Num 1), (''limit'', Num 10)],
                  Obj Plain [(''pagination'', Ref 0)]],
         route_query = Undefined, self_path = ''/'', queue = Some [Ref 1], ticks = [], visited = []\<rparr>"
    by (simp only: nav_state.simps)
  show ?thesis
    using a' f unfolding n r by (intro conjI)
qed

text \<open>
  Claim C5 at the input \<open>config = {syscode: "grid"}\<close>, \<open>page = 2\<close>: the page is written
  to a fresh object that \<open>config\<close> never refers to. After the call \<open>config\<close> still has no
  \<open>pagination\<close>, and the intent is queued.
\<close>

theorem onPageChange_absent_pagination_not_created:
  "onPageChange
     \<lparr>store = [Obj Plain [(''syscode'', Str ''grid'')]],
      route_query = Undefined, self_path = ''/'', queue = None, ticks = [], visited = []\<rparr>
     (Ref 0) (Num 2) Undefined
   = Inr \<lparr>store = [Obj Plain [(''syscode'', Str ''grid'')], Obj Plain [(''page'', Num 2)]],
      route_query = Undefined, self_path = ''/'', queue = Some [Ref 0], ticks = [], visited = []\<rparr>"
  by code_simp

text \<open>With a pagination object in place the page is set on it and the intent is queued.\<close>

lemma onPageChange_present_pagination:
  "onPageChange
     \<lparr>store = [Obj Plain [(''page'', Num 1), (''limit'', Num 10)],
               Obj Plain [(''syscode'', Str ''grid''), (''pagination'', Ref 0)]],
      route_query = Undefined, self_path = ''/'', queue = None, ticks = [], visited = []\<rparr>
     (Ref 1) (Num 2) Undefined
   = Inr \<lparr>store = [Obj Plain [(''page'', Num 2), (''limit'', Num 10)],
               Obj Plain [(''syscode'', Str ''grid''), (''pagination'', Ref 0)]],
      route_query = Undefined, self_path = ''/'', queue = Some [Ref 1], ticks = [], visited = []\<rparr>"
  by code_simp

subsection \<open>The query parameters\<close>

lemma obj_at_append: "a < length h \<Longrightarrow> obj_at (h @ xs) a = obj_at h a"
  by (simp add: obj_at_def nth_append)

lemma lookup_upd_props: "lookup (upd_props ps k v) k = v"
  by (induction ps) (auto simp: lookup_def)

lemma get_prop_same:
  "valid h v \<Longrightarrow> (\<And>a. a < length h \<Longrightarrow> obj_at h' a = obj_at h a) \<Longrightarrow> get_prop h' v k = get_prop h v k"
  by (cases v) (simp_all add: valid_def)

lemma own_keys_same:
  "valid h v \<Longrightarrow> (\<And>a. a < length h \<Longrightarrow> obj_at h' a = obj_at h a) \<Longrightarrow> own_keys h' v = own_keys h v"
  by (cases v) (simp_all add: valid_def)

lemma set_prop_plain:
  "a < length H \<Longrightarrow> H ! a = Obj Plain ps \<Longrightarrow> k \<noteq> ''__proto__'' \<Longrightarrow>
   set_prop H (Ref a) k v = Ret () (H[a := Obj Plain (upd_props ps k v)])"
  by (simp add: obj_at_def set_own_def)

lemma set_prop_plain_any:
  assumes "a < length H" "H ! a = Obj Plain ps"
  shows "\<exists>ps'. set_prop H (Ref a) k v = Ret () (H[a := Obj Plain ps'])"
proof (cases "k = ''__proto__'' \<and> k \<notin> set (map fst ps)")
  case True
  have e: "H[a := Obj Plain ps] = H"
    using assms by (simp add: list_update_same_conv)
  from True have k: "k = ''__proto__''" and nk: "''__proto__'' \<notin> set (map fst ps)"
    by blast+
  have "set_prop H (Ref a) k v = Ret () H"
    unfolding k using nk assms by (simp add: obj_at_def)
  then have "set_prop H (Ref a) k v = Ret () (H[a := Obj Plain ps])"
    by (simp only: e)
  then show ?thesis by (rule exI)
next
  case False
  then have "set_prop H (Ref a) k v = Ret () (H[a := Obj Plain (upd_props ps k v)])"
    using assms by (auto simp: obj_at_def set_own_def)
  then show ?thesis by (rule exI)
qed

lemma own_keys_update:
  "v \<noteq> Ref s \<Longrightarrow> own_keys (H[s := ob]) v = own_keys H v"
  by (cases v) (simp_all add: obj_at_def)

lemma get_prop_update:
  "v \<noteq> Ref s \<Longrightarrow> get_prop (H[s := ob]) v k = get_prop H v k"
  by (cases v) (simp_all add: obj_at_def)

lemma get_prop_plain:
  "a < length H \<Longrightarrow> H ! a = Obj Plain ps \<Longrightarrow> get_prop H (Ref a) k = lookup ps k"
  by (simp add: obj_at_def)

lemma nth_app2: "(h @ x # y # xs) ! Suc (length h) = y"
  by (simp add: nth_append)

lemma upd_app2: "(h @ x # y # xs)[Suc (length h) := z] = h @ x # z # xs"
  by (simp add: list_update_append)

lemma upd_app1: "(h @ x # xs)[length h := z] = h @ z # xs"
  by (simp add: list_update_append)

lemma opt_get_same:
  "valid h v \<Longrightarrow> (\<And>a. a < length h \<Longrightarrow> obj_at h' a = obj_at h a) \<Longrightarrow> opt_get h' v k = opt_get h v k"
  using get_prop_same [of h v h' k] by (simp add: opt_get_def)

lemma iterate_config:
  assumes "qp < length H" "s < length H" "qp \<noteq> s"
    and "H ! qp = Obj Plain [(syscode, Ref s)]" "H ! s = Obj Plain ps"
    and "config \<noteq> Ref s" "\<not> shadowed H config"
  shows "\<exists>ps'. iterate_keys (config_callback qp syscode) config keys idx H
            = Ret () (H[s := Obj Plain ps'])"
  using assms
proof (induction keys arbitrary: H idx ps)
  case Nil
  have "H[s := Obj Plain ps] = H"
    using Nil.prems(2,5) by (simp add: list_update_same_conv)
  then show ?case by (intro exI [of _ ps]) simp
next
  case (Cons key keys)
  let ?v = "get_prop H config key"
  have gs: "get_prop H (Ref qp) syscode = Ref s"
    using get_prop_plain [OF Cons.prems(1,4), of syscode] by (simp add: lookup_def)
  from set_prop_plain_any [OF Cons.prems(2,5), of key ?v]
  obtain ps1 where sp: "set_prop H (Ref s) key ?v = Ret () (H[s := Obj Plain ps1])" by blast
  let ?H' = "H[s := Obj Plain ps1]"
  have cb: "config_callback qp syscode ?v key idx H = Ret () ?H'"
    unfolding config_callback_def gs by (rule sp)
  have pre: "qp < length ?H'" "s < length ?H'" "?H' ! qp = Obj Plain [(syscode, Ref s)]"
    "?H' ! s = Obj Plain ps1"
    using Cons.prems by simp_all
  have sh: "\<not> shadowed ?H' config"
    using Cons.prems(7) own_keys_update [OF Cons.prems(6), of H "Obj Plain ps1"]
    by (simp add: shadowed_def)
  show ?case
  proof (cases "has_own H config key")
    case True
    from Cons.IH [OF pre(1,2) Cons.prems(3) pre(3,4) Cons.prems(6) sh]
    obtain ps' where "iterate_keys (config_callback qp syscode) config keys (Suc idx) ?H'
            = Ret () (?H'[s := Obj Plain ps'])" by blast
    then show ?thesis using True cb Cons.prems(7) by (intro exI [of _ ps']) simp
  next
    case False
    from Cons.IH [OF Cons.prems]
    obtain ps' where "iterate_keys (config_callback qp syscode) config keys idx H
            = Ret () (H[s := Obj Plain ps'])" by blast
    then show ?thesis using False by (intro exI [of _ ps']) simp
  qed
qed

lemma query_params_object_shape:
  assumes rq: "valid h rq" "own_keys h rq = []"
    and pg: "valid h pagination"
    and cf: "valid h config" "\<not> shadowed h config"
    and sc: "syscode \<notin> set inherited"
  shows "\<exists>ps. query_params_object h rq syscode pagination config =
           Ret (length h)
             (h @ [Obj Plain [(syscode, Ref (Suc (length h)))],
                   Obj Plain (upd_props ps ''pagination'' (Ref (Suc (Suc (length h))))),
                   Obj Plain [(''page'', opt_get h pagination ''page''),
                              (''limit'', opt_get h pagination ''limit'')]])"
proof -
  let ?n = "length h"
  let ?h0 = "h @ [Obj Plain []]"
  let ?h1 = "h @ [Obj Plain [], Obj Plain []]"
  let ?h2 = "h @ [Obj Plain [(syscode, Ref (Suc ?n))], Obj Plain []]"
  have ok0: "own_keys ?h0 rq = []"
    using own_keys_same [OF rq(1), of ?h0] rq(2) by (simp add: obj_at_append)
  have it0: "ITERATE rq (parse_query_callback ?n) ?h0 = Ret () ?h0"
    by (simp add: ITERATE_def ok0)
  have g0: "get_prop ?h0 (Ref ?n) syscode = Undefined"
    using get_prop_plain [of ?n ?h0 "[]" syscode] by (simp add: lookup_def)
  have oe: "or_empty ?h0 Undefined = (?h1, Ref (Suc ?n))"
    by (simp add: or_empty_def alloc_def)
  have np: "syscode \<noteq> ''__proto__''"
    using sc by (auto simp: inherited_def)
  have sp1: "set_prop ?h1 (Ref ?n) syscode (Ref (Suc ?n)) = Ret () ?h2"
    using set_prop_plain [of ?n ?h1 "[]" syscode "Ref (Suc ?n)"] np by (simp add: upd_app1)
  have cne: "config \<noteq> Ref (Suc ?n)"
    using cf(1) by (auto simp: valid_def)
  have "own_keys ?h2 config = own_keys h config"
    by (rule own_keys_same [OF cf(1)]) (simp add: obj_at_append)
  then have csh: "\<not> shadowed ?h2 config"
    using cf(2) by (simp add: shadowed_def)
  have "\<exists>ps'. iterate_keys (config_callback ?n syscode) config keys 0 ?h2
            = Ret () (?h2[Suc ?n := Obj Plain ps'])" for keys
    by (rule iterate_config [where ps = "[]", OF _ _ _ _ _ cne csh]) (simp_all add: nth_app2)
  note loop = this
  have same2: "?h2[Suc ?n := Obj Plain []] = ?h2"
    by (simp only: upd_app2)
  have "\<exists>ps'. (if truthy config then ITERATE config (config_callback ?n syscode) ?h2
                    else Ret () ?h2) = Ret () (?h2[Suc ?n := Obj Plain ps'])"
  proof (cases "truthy config \<and> (IS_OBJECT ?h2 config \<or> is_array ?h2 config)")
    case True
    from loop [of "own_keys ?h2 config"] obtain ps' where
      "iterate_keys (config_callback ?n syscode) config (own_keys ?h2 config) 0 ?h2
            = Ret () (?h2[Suc ?n := Obj Plain ps'])" by blast
    then have "(if truthy config then ITERATE config (config_callback ?n syscode) ?h2
                    else Ret () ?h2) = Ret () (?h2[Suc ?n := Obj Plain ps'])"
      using True by (simp add: ITERATE_def)
    then show ?thesis by (rule exI)
  next
    case False
    then have "(if truthy config then ITERATE config (config_callback ?n syscode) ?h2
                    else Ret () ?h2) = Ret () ?h2"
      by (simp only: ITERATE_def if_False if_cancel split: if_splits)
    then have "(if truthy config then ITERATE config (config_callback ?n syscode) ?h2
                    else Ret () ?h2) = Ret () (?h2[Suc ?n := Obj Plain []])"
      by (simp only: same2)
    then show ?thesis by (rule exI)
  qed
  then obtain ps where it3: "(if truthy config then ITERATE config (config_callback ?n syscode) ?h2
                    else Ret () ?h2) = Ret () (?h2[Suc ?n := Obj Plain ps])" by blast
  let ?h3 = "h @ [Obj Plain [(syscode, Ref (Suc ?n))], Obj Plain ps]"
  have h3: "?h2[Suc ?n := Obj Plain ps] = ?h3"
    by (simp add: upd_app2)
  have og: "opt_get ?h3 pagination k = opt_get h pagination k" for k
    by (rule opt_get_same [OF pg]) (simp add: obj_at_append)
  let ?pgo = "Obj Plain [(''page'', opt_get h pagination ''page''),
                         (''limit'', opt_get h pagination ''limit'')]"
  let ?h3' = "h @ [Obj Plain [(syscode, Ref (Suc ?n))], Obj Plain ps, ?pgo]"
  have al: "alloc ?h3 ?pgo = (?h3', Suc (Suc ?n))"
    by (simp add: alloc_def)
  have g3: "get_prop ?h3' (Ref ?n) syscode = Ref (Suc ?n)"
    using get_prop_plain [of ?n ?h3' "[(syscode, Ref (Suc ?n))]" syscode] by (simp add: lookup_def)
  have sp: "set_prop ?h3' (Ref (Suc ?n)) ''pagination'' (Ref (Suc (Suc ?n)))
     = Ret () (h @ [Obj Plain [(syscode, Ref (Suc ?n))],
                   Obj Plain (upd_props ps ''pagination'' (Ref (Suc (Suc ?n)))), ?pgo])"
    using set_prop_plain [of "Suc ?n" ?h3' ps "''pagination''" "Ref (Suc (Suc ?n))"]
    by (simp add: nth_app2 upd_app2)
  have "query_params_object h rq syscode pagination config =
           Ret (length h)
             (h @ [Obj Plain [(syscode, Ref (Suc (length h)))],
                   Obj Plain (upd_props ps ''pagination'' (Ref (Suc (Suc (length h))))), ?pgo])"
    by (simp only: query_params_object_def alloc_def prod.case append.simps append_assoc
        it0 bind_res_def res.case g0 oe sp1 it3 h3 og al [unfolded alloc_def] g3 sp
        length_append list.size add_Suc_right add_0_right)
  then show ?thesis by blast
qed

lemma nth_app3: "(h @ x # y # z # xs) ! Suc (Suc (length h)) = z"
  by (simp add: nth_append)

lemma pagination_of_shape:
  fixes h :: heap
  defines "n \<equiv> length h"
  assumes "h' = h @ [Obj Plain [(syscode, Ref (Suc n))],
                   Obj Plain (upd_props ps ''pagination'' (Ref (Suc (Suc n)))),
                   Obj Plain [(''page'', a), (''limit'', b)]]"
  shows "(let sub = get_prop h' (Ref n) syscode; pg = get_prop h' sub ''pagination''
          in is_plain h' pg \<and> own_keys h' pg = [''page'', ''limit'']
             \<and> get_prop h' pg ''page'' = a \<and> get_prop h' pg ''limit'' = b)"
proof -
  have len: "length h' = Suc (Suc (Suc n))" using assms by simp
  have o0: "h' ! n = Obj Plain [(syscode, Ref (Suc n))]"
    using assms by (simp add: nth_append)
  have o1: "h' ! Suc n = Obj Plain (upd_props ps ''pagination'' (Ref (Suc (Suc n))))"
    unfolding assms by (rule nth_app2)
  have o2: "h' ! Suc (Suc n) = Obj Plain [(''page'', a), (''limit'', b)]"
    unfolding assms by (rule nth_app3)
  have g0: "get_prop h' (Ref n) syscode = Ref (Suc n)"
    using get_prop_plain [of n h', OF _ o0] len by (simp add: lookup_def)
  have g1: "get_prop h' (Ref (Suc n)) ''pagination'' = Ref (Suc (Suc n))"
    using get_prop_plain [of "Suc n" h', OF _ o1] len by (simp add: lookup_upd_props)
  have oa: "obj_at h' (Suc (Suc n)) = Obj Plain [(''page'', a), (''limit'', b)]"
    using o2 len by (simp add: obj_at_def)
  show ?thesis
    unfolding Let_def g0 g1 by (simp add: oa lookup_def)
qed

lemma query_params_object_shadowed:
  "query_params_object [Obj Plain [], Obj Plain [(''page'', Num 2), (''limit'', Num 10)],
       Obj Plain [(''hasOwnProperty'', Num 1)]] (Ref 0) ''grid'' (Ref 1) (Ref 2)
   = Throw TypeError [Obj Plain [], Obj Plain [(''page'', Num 2), (''limit'', Num 10)],
       Obj Plain [(''hasOwnProperty'', Num 1)], Obj Plain [(''grid'', Ref 4)], Obj Plain []]"
  by code_simp

text \<open>
  Claim C3. With an empty current query, syscode \<open>"grid"\<close>, pagination
  \<open>{page: 2, limit: 10}\<close> and extra config \<open>{sort: [["name", "asc"]]}\<close>, the \<open>grid\<close>
  entry of the result, parsed from its JSON text, is
  \<open>{sort: [["name", "asc"]], pagination: {page: 2, limit: 10}}\<close>. And for every store,
  every empty current query, every syscode that is not the name of an inherited member,
  every pagination argument and every extra config of the store that has no own property
  named \<open>hasOwnProperty\<close>, the object built before the serialisation has under
  \<open>[syscode].pagination\<close> a new object with exactly the keys \<open>page\<close> and \<open>limit\<close>, holding
  \<open>pagination?.page\<close> and \<open>pagination?.limit\<close>, whatever else the extra config contains.
  (An extra config with an own property \<open>hasOwnProperty\<close> makes the loop over it throw
  before the pagination is written: \<open>query_params_object_shadowed\<close>.)
\<close>

theorem generateQueryParams_grid_pagination:
  "(case generateQueryParams
       [Obj Plain [], Obj (Array [Str ''name'', Str ''asc'']) [], Obj (Array [Ref 1]) [],
        Obj Plain [(''sort'', Ref 2)], Obj Plain [(''page'', Num 2), (''limit'', Num 10)]]
       (Ref 0) ''grid'' (Ref 4) (Ref 3) of
      Ret q h' \<Rightarrow> (case get_prop h' q ''grid'' of Str t \<Rightarrow> JSON_parse_text t | _ \<Rightarrow> None)
    | Throw e h' \<Rightarrow> None)
   = Some (JObj [(''sort'', JArr [JArr [JStr ''name'', JStr ''asc'']]),
                 (''pagination'', JObj [(''page'', JNum 2), (''limit'', JNum 10)])])
   \<and> (valid h rq \<and> own_keys h rq = [] \<and> valid h pagination
        \<and> valid h config \<and> \<not> shadowed h config \<and> syscode \<notin> set inherited \<longrightarrow>
        (\<exists>qp h'. query_params_object h rq syscode pagination config = Ret qp h'
           \<and> (let sub = get_prop h' (Ref qp) syscode; pg = get_prop h' sub ''pagination''
              in is_plain h' pg \<and> own_keys h' pg = [''page'', ''limit'']
                 \<and> get_prop h' pg ''page'' = opt_get h pagination ''page''
                 \<and> get_prop h' pg ''limit'' = opt_get h pagination ''limit'')))"
proof (intro conjI impI)
  show "(case generateQueryParams
       [Obj Plain [], Obj (Array [Str ''name'', Str ''asc'']) [], Obj (Array [Ref 1]) [],
        Obj Plain [(''sort'', Ref 2)], Obj Plain [(''page'', Num 2), (''limit'', Num 10)]]
       (Ref 0) ''grid'' (Ref 4) (Ref 3) of
      Ret q h' \<Rightarrow> (case get_prop h' q ''grid'' of Str t \<Rightarrow> JSON_parse_text t | _ \<Rightarrow> None)
    | Throw e h' \<Rightarrow> None)
   = Some (JObj [(''sort'', JArr [JArr [JStr ''name'', JStr ''asc'']]),
                 (''pagination'', JObj [(''page'', JNum 2), (''limit'', JNum 10)])])"
    by code_simp
next
  assume a: "valid h rq \<and> own_keys h rq = [] \<and> valid h pagination
        \<and> valid h config \<and> \<not> shadowed h config \<and> syscode \<notin> set inherited"
  from query_params_object_shape [of h rq pagination config syscode] a
  obtain ps where q: "query_params_object h rq syscode pagination config =
           Ret (length h)
             (h @ [Obj Plain [(syscode, Ref (Suc (length h)))],
                   Obj Plain (upd_props ps ''pagination'' (Ref (Suc (Suc (length h))))),
                   Obj Plain [(''page'', opt_get h pagination ''page''),
                              (''limit'', opt_get h pagination ''limit'')]])"
    by blast
  show "\<exists>qp h'. query_params_object h rq syscode pagination config = Ret qp h'
           \<and> (let sub = get_prop h' (Ref qp) syscode; pg = get_prop h' sub ''pagination''
              in is_plain h' pg \<and> own_keys h' pg = [''page'', ''limit'']
                 \<and> get_prop h' pg ''page'' = opt_get h pagination ''page''
                 \<and> get_prop h' pg ''limit'' = opt_get h pagination ''limit'')"
    using q pagination_of_shape [OF refl, of h syscode ps] by blast
qed

theorem generateQueryParams_grid_pagination_witness:
  "valid [Obj Plain [], Obj Plain [(''page'', Num 2), (''limit'', Num 10)],
          Obj Plain [(''pagination'', Num 7)]] (Ref 0)
   \<and> own_keys [Obj Plain [], Obj Plain [(''page'', Num 2), (''limit'', Num 10)],
          Obj Plain [(''pagination'', Num 7)]] (Ref 0) = []
   \<and> valid [Obj Plain [], Obj Plain [(''page'', Num 2), (''limit'', Num 10)],
          Obj Plain [(''pagination'', Num 7)]] (Ref 1)
   \<and> valid [Obj Plain [], Obj Plain [(''page'', Num 2), (''limit'', Num 10)],
          Obj Plain [(''pagination'', Num 7)]] (Ref 2)
   \<and> \<not> shadowed [Obj Plain [], Obj Plain [(''page'', Num 2), (''limit'', Num 10)],
          Obj Plain [(''pagination'', Num 7)]] (Ref 2)
   \<and> ''grid'' \<notin> set inherited
   \<and> (\<exists>qp h'. query_params_object
          [Obj Plain [], Obj Plain [(''page'', Num 2), (''limit'', Num 10)],
           Obj Plain [(''pagination'', Num 7)]] (Ref 0) ''grid'' (Ref 1) (Ref 2) = Ret qp h'
           \<and> (let sub = get_prop h' (Ref qp) ''grid''; pg = get_prop h' sub ''pagination''
              in get_prop h' pg ''page'' = Num 2 \<and> get_prop h' pg ''limit'' = Num 10))"
proof -
  let ?h = "[Obj Plain [], Obj Plain [(''page'', Num 2), (''limit'', Num 10)],
          Obj Plain [(''pagination'', Num 7)]]"
  have v: "valid ?h (Ref 0) \<and> own_keys ?h (Ref 0) = [] \<and> valid ?h (Ref 1)
        \<and> valid ?h (Ref 2) \<and> \<not> shadowed ?h (Ref 2) \<and> ''grid'' \<notin> set inherited"
    by code_simp
  have p: "opt_get ?h (Ref 1) ''page'' = Num 2" "opt_get ?h (Ref 1) ''limit'' = Num 10"
    by code_simp+
  from generateQueryParams_grid_pagination [of ?h "Ref 0" "Ref 1" "Ref 2" "''grid''"] v
  have "\<exists>qp h'. query_params_object ?h (Ref 0) ''grid'' (Ref 1) (Ref 2) = Ret qp h'
           \<and> (let sub = get_prop h' (Ref qp) ''grid''; pg = get_prop h' sub ''pagination''
              in is_plain h' pg \<and> own_keys h' pg = [''page'', ''limit'']
                 \<and> get_prop h' pg ''page'' = opt_get ?h (Ref 1) ''page''
                 \<and> get_prop h' pg ''limit'' = opt_get ?h (Ref 1) ''limit'')"
    by blast
  then have "\<exists>qp h'. query_params_object ?h (Ref 0) ''grid'' (Ref 1) (Ref 2) = Ret qp h'
           \<and> (let sub = get_prop h' (Ref qp) ''grid''; pg = get_prop h' sub ''pagination''
              in get_prop h' pg ''page'' = Num 2 \<and> get_prop h' pg ''limit'' = Num 10)"
    unfolding p Let_def by blast
  with v show ?thesis by blast
qed

subsection \<open>Deep clone\<close>

lemma opt_map_SomeD: "opt_map f xs = Some ys \<Longrightarrow> list_all2 (\<lambda>x y. f x = Some y) xs ys"
  by (induction xs arbitrary: ys) (auto split: option.splits)

lemma opt_map_SomeI: "list_all2 (\<lambda>x y. f x = Some y) xs ys \<Longrightarrow> opt_map f xs = Some ys"
  by (induction xs ys rule: list_all2_induct) simp_all

lemma opt_map_cong: "(\<And>x. x \<in> set xs \<Longrightarrow> f x = g x) \<Longrightarrow> opt_map f xs = opt_map g xs"
  by (induction xs) (simp_all split: option.splits)

lemma opt_map_rel:
  "list_all2 (\<lambda>x y. f x = g y) xs ys \<Longrightarrow> opt_map f xs = opt_map g ys"
  by (induction xs ys rule: list_all2_induct) (simp_all split: option.splits)

lemma opt_map_defined:
  "opt_map f xs = Some ys \<Longrightarrow> x \<in> set xs \<Longrightarrow> \<exists>y. f x = Some y"
  by (induction xs arbitrary: ys) (auto split: option.splits)

lemma deep_obj_children:
  assumes "deep_obj self a ob = Some t" "c \<in> set (children ob)"
  shows "\<exists>tc. self c = Some tc"
proof -
  obtain kd ps where ob: "ob = Obj kd ps" by (cases ob)
  show ?thesis
  proof (cases kd)
    case Plain
    then obtain ts where "opt_map self (map snd ps) = Some ts"
      using assms(1) ob by (auto simp: deep_obj_def split: if_splits)
    then show ?thesis using assms(2) ob Plain opt_map_defined [of self "map snd ps" ts c]
      by (simp add: children_def)
  next
    case (Array xs)
    then obtain ts where "opt_map self xs = Some ts"
      using assms(1) ob by (auto simp: deep_obj_def split: if_splits)
    then show ?thesis using assms(2) ob Array opt_map_defined [of self xs ts c]
      by (simp add: children_def)
  qed (use assms(2) ob in \<open>simp_all add: children_def\<close>)
qed

lemma deep_obj_cong:
  assumes "\<And>c. c \<in> set (children ob) \<Longrightarrow> f c = g c"
  shows "deep_obj f a ob = deep_obj g a ob"
proof -
  obtain kd ps where ob: "ob = Obj kd ps" by (cases ob)
  show ?thesis
  proof (cases kd)
    case Plain
    have "opt_map f (map snd ps) = opt_map g (map snd ps)"
      by (rule opt_map_cong) (use assms ob Plain in \<open>simp add: children_def\<close>)
    then show ?thesis using ob Plain by (simp add: deep_obj_def)
  next
    case (Array xs)
    have "opt_map f xs = opt_map g xs"
      by (rule opt_map_cong) (use assms ob Array in \<open>simp add: children_def\<close>)
    then show ?thesis using ob Array by (simp add: deep_obj_def)
  qed (simp_all add: ob deep_obj_def)
qed

lemma deep_touched_valid:
  "deep n h v = Some t \<Longrightarrow> touched n h v \<subseteq> {..<length h}"
proof (induction n arbitrary: v t)
  case 0
  then show ?case by simp
next
  case (Suc n)
  show ?case
  proof (cases v)
    case (Ref a)
    with Suc.prems have a: "a < length h" and d: "deep_obj (deep n h) a (h ! a) = Some t"
      by (simp_all split: if_splits)
    have "touched n h c \<subseteq> {..<length h}" if "c \<in> set (children (h ! a))" for c
    proof -
      from deep_obj_children [OF d that] obtain tc where "deep n h c = Some tc" by blast
      then show ?thesis by (rule Suc.IH)
    qed
    then show ?thesis using a Ref by auto
  qed simp_all
qed

lemma deep_agree:
  assumes "\<And>a. a \<in> touched n h v \<Longrightarrow> a < length h \<and> a < length h2 \<and> h2 ! a = h ! a"
  shows "deep n h2 v = deep n h v \<and> touched n h2 v = touched n h v"
  using assms
proof (induction n arbitrary: v)
  case 0
  show ?case by simp
next
  case (Suc n)
  show ?case
  proof (cases v)
    case (Ref a)
    have "a \<in> touched (Suc n) h v" using Ref by simp
    from Suc.prems [OF this] have a: "a < length h" "a < length h2" "h2 ! a = h ! a" by simp_all
    have ch: "deep n h2 c = deep n h c \<and> touched n h2 c = touched n h c"
      if "c \<in> set (children (h ! a))" for c
    proof (rule Suc.IH)
      fix b assume "b \<in> touched n h c"
      then have "b \<in> touched (Suc n) h v" using Ref a(1) that by auto
      then show "b < length h \<and> b < length h2 \<and> h2 ! b = h ! b" by (rule Suc.prems)
    qed
    have d: "deep_obj (deep n h2) a (h ! a) = deep_obj (deep n h) a (h ! a)"
      by (rule deep_obj_cong) (use ch in blast)
    have t: "(\<Union>c \<in> set (children (h ! a)). touched n h2 c)
           = (\<Union>c \<in> set (children (h ! a)). touched n h c)"
      using ch by auto
    show ?thesis using Ref a d t by simp
  qed simp_all
qed

lemma deep_append:
  assumes "deep n h v = Some t"
  shows "deep n (h @ ext) v = Some t" "touched n (h @ ext) v = touched n h v"
proof -
  have "deep n (h @ ext) v = deep n h v \<and> touched n (h @ ext) v = touched n h v"
  proof (rule deep_agree)
    fix a assume "a \<in> touched n h v"
    then have "a < length h" using deep_touched_valid [OF assms] by auto
    then show "a < length h \<and> a < length (h @ ext) \<and> (h @ ext) ! a = h ! a"
      by (simp add: nth_append)
  qed
  then show "deep n (h @ ext) v = Some t" "touched n (h @ ext) v = touched n h v"
    using assms by simp_all
qed

lemma deep_update:
  assumes "deep n h v = Some t" "a \<notin> touched n h v"
  shows "deep n (h[a := ob]) v = Some t" "touched n (h[a := ob]) v = touched n h v"
proof -
  have "deep n (h[a := ob]) v = deep n h v \<and> touched n (h[a := ob]) v = touched n h v"
  proof (rule deep_agree)
    fix b assume b: "b \<in> touched n h v"
    then have "b < length h" using deep_touched_valid [OF assms(1)] by auto
    moreover have "b \<noteq> a" using b assms(2) by auto
    ultimately show "b < length h \<and> b < length (h[a := ob]) \<and> h[a := ob] ! b = h ! b"
      by simp
  qed
  then show "deep n (h[a := ob]) v = Some t" "touched n (h[a := ob]) v = touched n h v"
    using assms(1) by simp_all
qed

lemma nth_around:
  assumes "b \<noteq> length h" "b < length (h @ ob # rest)"
  shows "(h @ ob2 # (rest @ ext)) ! b = (h @ ob # rest) ! b"
proof (cases "b < length h")
  case True
  then show ?thesis by (simp add: nth_append)
next
  case False
  then have "length h < b" using assms(1) by simp
  then obtain i where i: "b = length h + Suc i" using less_iff_Suc_add by auto
  then have "i < length rest" using assms(2) by simp
  then show ?thesis unfolding i by (simp add: nth_append)
qed

lemma kept_move:
  assumes "kept n h (h @ ob # rest) v' v"
  shows "kept n h (h @ ob2 # (rest @ ext)) v' v"
proof -
  let ?H = "h @ ob # rest" and ?H2 = "h @ ob2 # (rest @ ext)"
  from assms obtain t where d: "deep n h v = Some t" "deep n ?H v' = Some t"
    and tc: "\<forall>b \<in> touched n ?H v'. b \<noteq> length h \<and> (length h \<le> b \<or> handle (h ! b))"
    by (auto simp: kept_def)
  have "deep n ?H2 v' = deep n ?H v' \<and> touched n ?H2 v' = touched n ?H v'"
  proof (rule deep_agree)
    fix b assume b: "b \<in> touched n ?H v'"
    then have lt: "b < length ?H" using deep_touched_valid [OF d(2)] by auto
    have ne: "b \<noteq> length h" using tc b by blast
    have "?H2 ! b = ?H ! b" using ne lt by (rule nth_around)
    moreover have "b < length ?H2" using lt by simp
    ultimately show "b < length ?H \<and> b < length ?H2 \<and> ?H2 ! b = ?H ! b" using lt by blast
  qed
  then show ?thesis using d tc by (simp add: kept_def)
qed

lemma kept_new:
  assumes "\<not> handle ob"
    and "deep n h v = Some t" "deep n ((h @ ob # rest) @ ext) v' = Some t"
    and "\<forall>b \<in> touched n ((h @ ob # rest) @ ext) v'.
           length (h @ ob # rest) \<le> b \<or> handle ((h @ ob # rest) ! b)"
  shows "kept n h (h @ ob2 # (rest @ ext)) v' v"
proof -
  have "kept n h (h @ ob # (rest @ ext)) v' v"
    unfolding kept_def
  proof (intro conjI ballI)
    show "deep n h v \<noteq> None" using assms(2) by simp
    show "deep n (h @ ob # rest @ ext) v' = deep n h v" using assms(2,3) by simp
  next
    fix b assume "b \<in> touched n (h @ ob # rest @ ext) v'"
    then have c: "length (h @ ob # rest) \<le> b \<or> handle ((h @ ob # rest) ! b)"
      using assms(4) by simp
    show "b \<noteq> length h"
    proof
      assume "b = length h"
      then have "handle ob" using c by simp
      then show False using assms(1) by simp
    qed
    show "length h \<le> b \<or> handle (h ! b)"
    proof (cases "b < length h")
      case True
      then show ?thesis using c by (simp add: nth_append)
    next
      case False
      then show ?thesis by simp
    qed
  qed
  from kept_move [OF this, of ob2 "[]"] show ?thesis by simp
qed

lemma upd_props_fresh: "k \<notin> set (map fst ps) \<Longrightarrow> upd_props ps k x = ps @ [(k, x)]"
  by (induction ps) auto

lemma update_middle: "((h @ ob # rest) @ ext)[length h := ob2] = h @ ob2 # (rest @ ext)"
  by (simp add: list_update_append)

lemma proto_free_TArray: "proto_free (TArray ts) \<longleftrightarrow> (\<forall>t \<in> set ts. proto_free t)"
  by (simp add: list_all_iff)

lemma proto_free_TObject:
  "proto_free (TObject kvs) \<longleftrightarrow>
     ''__proto__'' \<notin> set (map fst kvs) \<and> (\<forall>t \<in> set (map snd kvs). proto_free t)"
  by (auto simp: list_all_iff)

lemma opt_map_free:
  assumes "opt_map f xs = Some ys" "\<forall>y \<in> set ys. P y"
  shows "\<forall>x \<in> set xs. \<exists>y. f x = Some y \<and> P y"
proof -
  have "list_all2 (\<lambda>x y. f x = Some y) xs ys" using assms(1) by (rule opt_map_SomeD)
  then show ?thesis using assms(2)
    by (induction rule: list_all2_induct) auto
qed

lemma set_prop_fresh_key:
  assumes "obj_at H a = Obj Plain acc" "k \<notin> set (map fst acc)" "k \<noteq> ''__proto__''"
  shows "set_prop H (Ref a) k x = Ret () (H[a := Obj Plain (acc @ [(k, x)])])"
  using assms upd_props_fresh [OF assms(2), of x] by (simp add: set_own_def)

lemma clone_keys_ok:
  assumes ok: "clone_ok n self"
    and a: "a < length h" "h ! a = Obj Plain ps" "distinct (map fst ps)"
    and np: "''__proto__'' \<notin> set (map fst ps)"
    and "ps = pa @ pb"
    and "map fst acc = map fst pa"
    and "list_all2 (kept n h (h @ Obj Plain acc # rest)) (map snd acc) (map snd pa)"
    and "\<forall>v \<in> set (map snd pb). \<exists>t. deep n h v = Some t \<and> proto_free t"
  shows "\<exists>acc' rest'.
           clone_keys self (Ref a) (length h) (map fst pb) (h @ Obj Plain acc # rest)
             = Some (Ret () (h @ Obj Plain acc' # rest'))
           \<and> map fst acc' = map fst ps
           \<and> list_all2 (kept n h (h @ Obj Plain acc' # rest')) (map snd acc') (map snd ps)"
  using assms(6-)
proof (induction pb arbitrary: pa acc rest)
  case Nil
  then show ?case by auto
next
  case (Cons p pb)
  obtain k v where p: "p = (k, v)" by (cases p)
  let ?H = "h @ Obj Plain acc # rest"
  have oa: "obj_at ?H a = Obj Plain ps" using a(1,2) by (simp add: obj_at_def nth_append)
  have kin: "(k, v) \<in> set ps" using Cons.prems(1) p by simp
  have own: "has_own ?H (Ref a) k"
    using kin oa by (force simp: has_own_def)
  have "map_of ps k = Some v" using a(3) kin by simp
  then have gp: "get_prop ?H (Ref a) k = v" using oa by (simp add: lookup_def)
  obtain tv where tv: "deep n h v = Some tv" and pf: "proto_free tv"
    using Cons.prems(4) p by auto
  have tvH: "deep n ?H v = Some tv" using deep_append(1) [OF tv] .
  from ok tvH pf obtain ext v' where
    cl: "self v ?H = Some (Ret v' (?H @ ext))"
    and dv: "deep n (?H @ ext) v' = Some tv"
    and tc: "\<forall>b \<in> touched n (?H @ ext) v'. length ?H \<le> b \<or> handle (?H ! b)"
    unfolding clone_ok_def by blast
  have knew: "k \<notin> set (map fst acc)"
    using a(3) Cons.prems(1,2) p by auto
  have or: "obj_at (?H @ ext) (length h) = Obj Plain acc"
    by (simp add: obj_at_def nth_append)
  let ?acc2 = "acc @ [(k, v')]"
  let ?H2 = "h @ Obj Plain ?acc2 # (rest @ ext)"
  have kp: "k \<noteq> ''__proto__''"
    using np kin by force
  have sp: "set_prop (?H @ ext) (Ref (length h)) k v' = Ret () ?H2"
    using set_prop_fresh_key [OF or knew kp, of v'] update_middle [of h "Obj Plain acc" rest ext]
    by simp
  have step: "clone_keys self (Ref a) (length h) (map fst (p # pb)) ?H
            = clone_keys self (Ref a) (length h) (map fst pb) ?H2"
    using own gp cl sp p by simp
  have nh: "\<not> handle (Obj Plain acc)" by (simp add: handle_def)
  have new: "kept n h ?H2 v' v"
    using kept_new [OF nh tv dv tc] .
  have old: "list_all2 (kept n h ?H2) (map snd acc) (map snd pa)"
    using Cons.prems(3) kept_move [of n h "Obj Plain acc" rest _ _ "Obj Plain ?acc2" ext]
    by (rule list_all2_mono)
  have all: "list_all2 (kept n h ?H2) (map snd ?acc2) (map snd (pa @ [p]))"
    using old new p by (simp add: list_all2_appendI)
  have "\<exists>acc' rest'.
           clone_keys self (Ref a) (length h) (map fst pb) ?H2
             = Some (Ret () (h @ Obj Plain acc' # rest'))
           \<and> map fst acc' = map fst ps
           \<and> list_all2 (kept n h (h @ Obj Plain acc' # rest')) (map snd acc') (map snd ps)"
  proof (rule Cons.IH [of "pa @ [p]" ?acc2 "rest @ ext"])
    show "ps = (pa @ [p]) @ pb" using Cons.prems(1) by simp
    show "map fst ?acc2 = map fst (pa @ [p])" using Cons.prems(2) p by simp
    show "list_all2 (kept n h ?H2) (map snd ?acc2) (map snd (pa @ [p]))" using all .
    show "\<forall>v \<in> set (map snd pb). \<exists>t. deep n h v = Some t \<and> proto_free t"
      using Cons.prems(4) by simp
  qed
  then show ?case unfolding step .
qed

lemma clone_elems_ok:
  assumes ok: "clone_ok n self"
    and a: "a < length h" "h ! a = Obj (Array xs) aps"
    and df: "\<forall>v \<in> set xs. \<exists>t. deep n h v = Some t \<and> proto_free t"
    and "length ys = length xs" "m \<le> length xs"
    and "\<forall>i<m. kept n h (h @ Obj (Array ys) [] # rest) (ys ! i) (xs ! i)"
  shows "\<exists>ys' rest'.
           clone_elems self a (length h) [m..<length xs] (h @ Obj (Array ys) [] # rest)
             = Some (Ret () (h @ Obj (Array ys') [] # rest'))
           \<and> length ys' = length xs
           \<and> (\<forall>i<length xs. kept n h (h @ Obj (Array ys') [] # rest') (ys' ! i) (xs ! i))"
  using assms(5-)
proof (induction "length xs - m" arbitrary: m ys rest)
  case 0
  then have "m = length xs" by simp
  then show ?case using "0.prems" by auto
next
  case (Suc d)
  then have m: "m < length xs" by simp
  let ?H = "h @ Obj (Array ys) [] # rest"
  have up: "[m..<length xs] = m # [Suc m..<length xs]" using m by (rule upt_conv_Cons)
  have ea: "elems_at ?H a = xs" using a by (simp add: elems_at_def obj_at_def nth_append)
  obtain tv where tv: "deep n h (xs ! m) = Some tv" and pf: "proto_free tv"
    using df m by force
  have tvH: "deep n ?H (xs ! m) = Some tv" using deep_append(1) [OF tv] .
  from ok tvH pf obtain ext v' where
    cl: "self (xs ! m) ?H = Some (Ret v' (?H @ ext))"
    and dv: "deep n (?H @ ext) v' = Some tv"
    and tc: "\<forall>b \<in> touched n (?H @ ext) v'. length ?H \<le> b \<or> handle (?H ! b)"
    unfolding clone_ok_def by blast
  have er: "elems_at (?H @ ext) (length h) = ys"
    by (simp add: elems_at_def obj_at_def nth_append)
  let ?ys2 = "ys[m := v']"
  let ?H2 = "h @ Obj (Array ?ys2) [] # (rest @ ext)"
  have upd: "(?H @ ext)[length h := Obj (Array ((elems_at (?H @ ext) (length h))[m := v'])) []] = ?H2"
    unfolding er by (rule update_middle)
  have step: "clone_elems self a (length h) [m..<length xs] ?H
            = clone_elems self a (length h) [Suc m..<length xs] ?H2"
    unfolding up using ea m cl upd by simp
  have nh: "\<not> handle (Obj (Array ys) [])" by (simp add: handle_def)
  have new: "kept n h ?H2 v' (xs ! m)"
    using kept_new [OF nh tv dv tc] .
  have inv: "\<forall>i<Suc m. kept n h ?H2 (?ys2 ! i) (xs ! i)"
  proof (intro allI impI)
    fix i assume i: "i < Suc m"
    show "kept n h ?H2 (?ys2 ! i) (xs ! i)"
    proof (cases "i = m")
      case True
      then show ?thesis using new m Suc.prems(1) by simp
    next
      case False
      then have "i < m" using i by simp
      then have "kept n h ?H (ys ! i) (xs ! i)" using Suc.prems(3) by blast
      from kept_move [OF this] show ?thesis using False by simp
    qed
  qed
  have "\<exists>ys' rest'.
           clone_elems self a (length h) [Suc m..<length xs] ?H2
             = Some (Ret () (h @ Obj (Array ys') [] # rest'))
           \<and> length ys' = length xs
           \<and> (\<forall>i<length xs. kept n h (h @ Obj (Array ys') [] # rest') (ys' ! i) (xs ! i))"
  proof (rule Suc.hyps(1))
    show "d = length xs - Suc m" using Suc.hyps(2) by simp
    show "length ?ys2 = length xs" using Suc.prems(1) by simp
    show "Suc m \<le> length xs" using m by simp
    show "\<forall>i<Suc m. kept n h ?H2 (?ys2 ! i) (xs ! i)" using inv .
  qed
  then show ?case unfolding step .
qed

lemma kept_touched:
  assumes "kept n h H v' v" "b \<in> touched n H v'"
  shows "length h \<le> b \<or> handle (h ! b)"
  using assms by (simp add: kept_def)

lemma clone_object_ok:
  assumes ok: "clone_ok n self"
    and a: "a < length h" and d: "deep_obj (deep n h) a (h ! a) = Some t"
    and pf: "proto_free t"
  shows "\<exists>ext x'. clone_object self (Ref a) a h = Some (Ret x' (h @ ext))
           \<and> deep (Suc n) (h @ ext) x' = Some t
           \<and> (\<forall>b \<in> touched (Suc n) (h @ ext) x'. length h \<le> b \<or> handle (h ! b))"
proof -
  obtain kd ps where ob: "h ! a = Obj kd ps" by (cases "h ! a")
  have oa: "obj_at h a = Obj kd ps" using a ob by (simp add: obj_at_def)
  show ?thesis
  proof (cases kd)
    case Plain
    from d ob Plain obtain ts where dist: "distinct (map fst ps)"
      and ts: "opt_map (deep n h) (map snd ps) = Some ts"
      and t: "t = TObject (zip (map fst ps) ts)"
      by (auto simp: deep_obj_def split: if_splits)
    have lts: "length ts = length ps"
      using opt_map_SomeD [OF ts] by (auto dest: list_all2_lengthD)
    have np: "''__proto__'' \<notin> set (map fst ps)"
      using pf lts unfolding t proto_free_TObject by simp
    have "\<forall>t' \<in> set ts. proto_free t'"
      using pf lts unfolding t proto_free_TObject by simp
    then have def: "\<forall>v \<in> set (map snd ps). \<exists>t. deep n h v = Some t \<and> proto_free t"
      by (rule opt_map_free [OF ts])
    have "\<exists>acc' rest'.
           clone_keys self (Ref a) (length h) (map fst ps) (h @ Obj Plain [] # [])
             = Some (Ret () (h @ Obj Plain acc' # rest'))
           \<and> map fst acc' = map fst ps
           \<and> list_all2 (kept n h (h @ Obj Plain acc' # rest')) (map snd acc') (map snd ps)"
      using clone_keys_ok [where pa = "[]" and pb = ps and acc = "[]" and rest = "[]" and ps = ps,
          OF ok a _ dist np] ob Plain def by simp
    then obtain acc' rest' where
      ck: "clone_keys self (Ref a) (length h) (map fst ps) (h @ [Obj Plain []])
             = Some (Ret () (h @ Obj Plain acc' # rest'))"
      and keys: "map fst acc' = map fst ps"
      and kp: "list_all2 (kept n h (h @ Obj Plain acc' # rest')) (map snd acc') (map snd ps)"
      by auto
    let ?H = "h @ Obj Plain acc' # rest'"
    have res: "clone_object self (Ref a) a h = Some (Ret (Ref (length h)) ?H)"
      using oa Plain ck by (simp add: clone_object_def alloc_def)
    have "list_all2 (\<lambda>v' v. deep n ?H v' = deep n h v) (map snd acc') (map snd ps)"
      using kp by (rule list_all2_mono) (simp add: kept_def)
    then have "opt_map (deep n ?H) (map snd acc') = opt_map (deep n h) (map snd ps)"
      by (rule opt_map_rel)
    then have dp: "deep (Suc n) ?H (Ref (length h)) = Some t"
      using ts t keys dist by (simp add: deep_obj_def)
    have tch: "length h \<le> b \<or> handle (h ! b)" if bt: "b \<in> touched (Suc n) ?H (Ref (length h))" for b
    proof (cases "b = length h")
      case True
      then show ?thesis by simp
    next
      case False
      then obtain c where c: "c \<in> set (map snd acc')" "b \<in> touched n ?H c"
        using bt by (auto simp: children_def)
      then obtain i where i: "i < length (map snd acc')" "c = map snd acc' ! i"
        by (metis in_set_conv_nth)
      have "kept n h ?H (map snd acc' ! i) (map snd ps ! i)"
        using kp i(1) by (rule list_all2_nthD)
      then show ?thesis using c(2) i(2) kept_touched by blast
    qed
    show ?thesis using res dp tch by (metis append_Cons)
  next
    case (Array xs)
    from d ob Array obtain ts where ps: "ps = []"
      and ts: "opt_map (deep n h) xs = Some ts" and t: "t = TArray ts"
      by (auto simp: deep_obj_def split: if_splits)
    have "\<forall>t' \<in> set ts. proto_free t'"
      using pf unfolding t proto_free_TArray .
    then have def: "\<forall>v \<in> set xs. \<exists>t. deep n h v = Some t \<and> proto_free t"
      by (rule opt_map_free [OF ts])
    let ?ys0 = "replicate (length xs) Undefined"
    have "\<exists>ys' rest'.
           clone_elems self a (length h) [0..<length xs] (h @ Obj (Array ?ys0) [] # [])
             = Some (Ret () (h @ Obj (Array ys') [] # rest'))
           \<and> length ys' = length xs
           \<and> (\<forall>i<length xs. kept n h (h @ Obj (Array ys') [] # rest') (ys' ! i) (xs ! i))"
      using clone_elems_ok [where m = 0 and ys = ?ys0 and rest = "[]" and xs = xs and aps = ps,
          OF ok a _ def] ob Array by simp
    then obtain ys' rest' where
      ce: "clone_elems self a (length h) [0..<length xs] (h @ [Obj (Array ?ys0) []])
             = Some (Ret () (h @ Obj (Array ys') [] # rest'))"
      and len: "length ys' = length xs"
      and kp: "\<forall>i<length xs. kept n h (h @ Obj (Array ys') [] # rest') (ys' ! i) (xs ! i)"
      by auto
    let ?H = "h @ Obj (Array ys') [] # rest'"
    have res: "clone_object self (Ref a) a h = Some (Ret (Ref (length h)) ?H)"
      using oa Array ce by (simp add: clone_object_def alloc_def)
    have "list_all2 (\<lambda>v' v. deep n ?H v' = deep n h v) ys' xs"
      using kp len by (simp add: list_all2_conv_all_nth kept_def)
    then have "opt_map (deep n ?H) ys' = opt_map (deep n h) xs"
      by (rule opt_map_rel)
    then have dp: "deep (Suc n) ?H (Ref (length h)) = Some t"
      using ts t by (simp add: deep_obj_def)
    have tch: "length h \<le> b \<or> handle (h ! b)" if bt: "b \<in> touched (Suc n) ?H (Ref (length h))" for b
    proof (cases "b = length h")
      case True
      then show ?thesis by simp
    next
      case False
      then obtain c where c: "c \<in> set ys'" "b \<in> touched n ?H c"
        using bt by (auto simp: children_def)
      then obtain i where i: "i < length ys'" "c = ys' ! i"
        by (metis in_set_conv_nth)
      have "kept n h ?H (ys' ! i) (xs ! i)" using kp i(1) len by simp
      then show ?thesis using c(2) i(2) kept_touched by blast
    qed
    show ?thesis using res dp tch by (metis append_Cons)
  next
    case (Date tm)
    from d ob Date have ps: "ps = []" and t: "t = TDate tm"
      by (auto simp: deep_obj_def split: if_splits)
    let ?H = "h @ [Obj (Date tm) []]"
    have res: "clone_object self (Ref a) a h = Some (Ret (Ref (length h)) ?H)"
      using oa Date by (simp add: clone_object_def alloc_def)
    have dp: "deep (Suc n) ?H (Ref (length h)) = Some t"
      using t by (simp add: deep_obj_def)
    have tch: "\<forall>b \<in> touched (Suc n) ?H (Ref (length h)). length h \<le> b \<or> handle (h ! b)"
      by (simp add: children_def)
    show ?thesis using res dp tch by blast
  next
    case (RegExp src fl)
    from d ob RegExp have ps: "ps = []" and t: "t = TRegExp src fl"
      by (auto simp: deep_obj_def split: if_splits)
    let ?H = "h @ [Obj (RegExp src fl) []]"
    have res: "clone_object self (Ref a) a h = Some (Ret (Ref (length h)) ?H)"
      using oa RegExp by (simp add: clone_object_def alloc_def)
    have dp: "deep (Suc n) ?H (Ref (length h)) = Some t"
      using t by (simp add: deep_obj_def)
    have tch: "\<forall>b \<in> touched (Suc n) ?H (Ref (length h)). length h \<le> b \<or> handle (h ! b)"
      by (simp add: children_def)
    show ?thesis using res dp tch by blast
  next
    case (File nm)
    have res: "clone_object self (Ref a) a h = Some (Ret (Ref a) (h @ []))"
      using oa File by (simp add: clone_object_def)
    have dp: "deep (Suc n) (h @ []) (Ref a) = Some t" using d a by simp
    have tch: "\<forall>b \<in> touched (Suc n) (h @ []) (Ref a). length h \<le> b \<or> handle (h ! b)"
      using a ob File by (simp add: children_def handle_def)
    show ?thesis using res dp tch by blast
  next
    case (FileList fs)
    have res: "clone_object self (Ref a) a h = Some (Ret (Ref a) (h @ []))"
      using oa FileList by (simp add: clone_object_def)
    have dp: "deep (Suc n) (h @ []) (Ref a) = Some t" using d a by simp
    have tch: "\<forall>b \<in> touched (Suc n) (h @ []) (Ref a). length h \<le> b \<or> handle (h ! b)"
      using a ob FileList by (simp add: children_def handle_def)
    show ?thesis using res dp tch by blast
  qed
qed

lemma CLONE_ok: "clone_ok n (CLONE n)"
proof (induction n)
  case 0
  show ?case by (simp add: clone_ok_def)
next
  case (Suc n)
  show ?case
    unfolding clone_ok_def
  proof (intro allI impI)
    fix h x t assume d: "deep (Suc n) h x = Some t" and pf: "proto_free t"
    show "\<exists>ext x'. CLONE (Suc n) x h = Some (Ret x' (h @ ext))
           \<and> deep (Suc n) (h @ ext) x' = Some t
           \<and> (\<forall>b \<in> touched (Suc n) (h @ ext) x'. length h \<le> b \<or> handle (h ! b))"
    proof (cases x)
      case (Ref a)
      with d have a: "a < length h" and do: "deep_obj (deep n h) a (h ! a) = Some t"
        by (simp_all split: if_splits)
      from clone_object_ok [OF Suc a do pf] show ?thesis using Ref by simp
    qed (use d in \<open>auto intro!: exI [of _ "[]"]\<close>)
  qed
qed

text \<open>
  Claim C8 at the input \<open>JSON.parse('{"__proto__":{"x":1},"b":2}')\<close>. The parsed object
  has the two own keys \<open>__proto__\<close> and \<open>b\<close>. \<open>CLONE\<close> copies it key by key with
  \<open>clonedObject[key] = CLONE(item[key])\<close>; under the key \<open>__proto__\<close> that assignment runs
  the inherited setter, which stores no own property. The clone has the one key \<open>b\<close>: it
  does not unfold to the tree of the input, although the nested object was copied and
  the key \<open>b\<close> next to it arrives.
\<close>

theorem CLONE_loses_proto_key:
  "JSON_parse (''{'' @ CHR 0x22 # ''__proto__'' @ CHR 0x22 # '':{'' @ CHR 0x22 # ''x''
        @ CHR 0x22 # '':1},'' @ CHR 0x22 # ''b'' @ CHR 0x22 # '':2}'') []
     = Ret (Ref 1) [Obj Plain [(''x'', Num 1)], Obj Plain [(''__proto__'', Ref 0), (''b'', Num 2)]]
   \<and> CLONE 3 (Ref 1)
        [Obj Plain [(''x'', Num 1)], Obj Plain [(''__proto__'', Ref 0), (''b'', Num 2)]]
     = Some (Ret (Ref 2)
         [Obj Plain [(''x'', Num 1)], Obj Plain [(''__proto__'', Ref 0), (''b'', Num 2)],
          Obj Plain [(''b'', Num 2)], Obj Plain [(''x'', Num 1)]])
   \<and> deep 3 [Obj Plain [(''x'', Num 1)], Obj Plain [(''__proto__'', Ref 0), (''b'', Num 2)]]
        (Ref 1)
     = Some (TObject [(''__proto__'', TObject [(''x'', TNum 1)]), (''b'', TNum 2)])
   \<and> deep 3
        [Obj Plain [(''x'', Num 1)], Obj Plain [(''__proto__'', Ref 0), (''b'', Num 2)],
         Obj Plain [(''b'', Num 2)], Obj Plain [(''x'', Num 1)]] (Ref 2)
     = Some (TObject [(''b'', TNum 2)])"
  by code_simp

text \<open>
  Away from the key \<open>__proto__\<close> the copy is deep. For every structure \<open>x\<close> that is not
  cyclic (it unfolds to a tree \<open>t\<close> within some depth \<open>n\<close>) and in which no object has a
  key \<open>__proto__\<close>, \<open>CLONE\<close> returns, the store is only extended, and the result unfolds to
  the same tree \<open>t\<close>. Every object that the clone reaches, other than a file or file-list
  handle, is new, and replacing it by any object at all leaves the tree of \<open>x\<close> as it was.
  When \<open>x\<close> is a plain object, an array, a date or a pattern, the result is not the
  reference \<open>x\<close>; when \<open>x\<close> is a file or a file list, the result is \<open>x\<close> itself and the store
  is unchanged.
\<close>

lemma CLONE_copies_ordinary:
  assumes "deep n h x = Some t" and pf: "proto_free t"
  shows "\<exists>ext x'. CLONE n x h = Some (Ret x' (h @ ext))
          \<and> deep n (h @ ext) x' = Some t
          \<and> (\<forall>a \<in> touched n (h @ ext) x'. \<not> handle ((h @ ext) ! a) \<longrightarrow>
                length h \<le> a \<and> (\<forall>ob. deep n ((h @ ext)[a := ob]) x = Some t))
          \<and> (\<forall>a. x = Ref a \<and> \<not> handle (h ! a) \<longrightarrow> x' \<noteq> x)
          \<and> (\<forall>a. x = Ref a \<and> handle (h ! a) \<longrightarrow> x' = x \<and> ext = [])"
proof -
  from CLONE_ok [of n] assms(1) pf obtain ext x' where
    cl: "CLONE n x h = Some (Ret x' (h @ ext))"
    and dp: "deep n (h @ ext) x' = Some t"
    and tc: "\<forall>b \<in> touched n (h @ ext) x'. length h \<le> b \<or> handle (h ! b)"
    unfolding clone_ok_def by blast
  obtain m where n: "n = Suc m" using assms(1) by (cases n) simp_all
  have fresh: "length h \<le> a \<and> (\<forall>ob. deep n ((h @ ext)[a := ob]) x = Some t)"
    if at: "a \<in> touched n (h @ ext) x'" and nh: "\<not> handle ((h @ ext) ! a)" for a
  proof -
    have ge: "length h \<le> a"
    proof (rule ccontr)
      assume "\<not> length h \<le> a"
      then have lt: "a < length h" by simp
      then have "handle (h ! a)" using tc at by auto
      then show False using nh lt by (simp add: nth_append)
    qed
    have "deep n ((h @ ext)[a := ob]) x = Some t" for ob
    proof -
      have "deep n ((h @ ext)[a := ob]) x = deep n h x
            \<and> touched n ((h @ ext)[a := ob]) x = touched n h x"
      proof (rule deep_agree)
        fix b assume "b \<in> touched n h x"
        then have b: "b < length h" using deep_touched_valid [OF assms(1)] by auto
        then have "b \<noteq> a" using ge by simp
        then show "b < length h \<and> b < length ((h @ ext)[a := ob]) \<and> (h @ ext)[a := ob] ! b = h ! b"
          using b by (simp add: nth_append)
      qed
      then show ?thesis using assms(1) by simp
    qed
    then show ?thesis using ge by blast
  qed
  have diff: "x' \<noteq> x" if x: "x = Ref a" and nh: "\<not> handle (h ! a)" for a
  proof
    assume "x' = x"
    then have "a \<in> touched n (h @ ext) x'" using x n by simp
    then have "length h \<le> a \<or> handle (h ! a)" using tc by blast
    moreover have "a < length h" using assms(1) x n by (simp split: if_splits)
    ultimately show False using nh by simp
  qed
  have same: "x' = x \<and> ext = []" if x: "x = Ref a" and hd: "handle (h ! a)" for a
  proof -
    have a: "a < length h" using assms(1) x n by (simp split: if_splits)
    obtain kd ps where ob: "h ! a = Obj kd ps" by (cases "h ! a")
    have "CLONE n x h = Some (Ret x h)"
      using hd ob a x n by (cases kd) (simp_all add: handle_def clone_object_def obj_at_def)
    then show ?thesis using cl by simp
  qed
  show ?thesis using cl dp fresh diff same by blast
qed

lemma CLONE_copies_ordinary_example:
  "deep 3 [Obj (File ''f'') [], Obj (Array [Num 1, Ref 0]) [],
           Obj Plain [(''a'', Ref 1), (''d'', Ref 3)], Obj (Date 5) []] (Ref 2)
     = Some (TObject [(''a'', TArray [TNum 1, THandle 0]), (''d'', TDate 5)])
   \<and> CLONE 3 (Ref 2)
        [Obj (File ''f'') [], Obj (Array [Num 1, Ref 0]) [],
         Obj Plain [(''a'', Ref 1), (''d'', Ref 3)], Obj (Date 5) []]
     = Some (Ret (Ref 4)
         ([Obj (File ''f'') [], Obj (Array [Num 1, Ref 0]) [],
           Obj Plain [(''a'', Ref 1), (''d'', Ref 3)], Obj (Date 5) []]
          @ [Obj Plain [(''a'', Ref 5), (''d'', Ref 6)], Obj (Array [Num 1, Ref 0]) [],
             Obj (Date 5) []]))
   \<and> deep 3
        ([Obj (File ''f'') [], Obj (Array [Num 1, Ref 0]) [],
          Obj Plain [(''a'', Ref 1), (''d'', Ref 3)], Obj (Date 5) []]
         @ [Obj Plain [(''a'', Ref 5), (''d'', Ref 6)], Obj (Array [Num 1, Ref 0]) [],
            Obj (Date 5) []]) (Ref 4)
     = Some (TObject [(''a'', TArray [TNum 1, THandle 0]), (''d'', TDate 5)])
   \<and> deep 3
        (([Obj (File ''f'') [], Obj (Array [Num 1, Ref 0]) [],
          Obj Plain [(''a'', Ref 1), (''d'', Ref 3)], Obj (Date 5) []]
         @ [Obj Plain [(''a'', Ref 5), (''d'', Ref 6)], Obj (Array [Num 1, Ref 0]) [],
            Obj (Date 5) []])[5 := Obj (Array [Num 2]) []]) (Ref 2)
     = Some (TObject [(''a'', TArray [TNum 1, THandle 0]), (''d'', TDate 5)])"
proof -
  let ?h = "[Obj (File ''f'') [], Obj (Array [Num 1, Ref 0]) [],
           Obj Plain [(''a'', Ref 1), (''d'', Ref 3)], Obj (Date 5) []]"
  let ?e = "[Obj Plain [(''a'', Ref 5), (''d'', Ref 6)], Obj (Array [Num 1, Ref 0]) [],
             Obj (Date 5) []]"
  let ?t = "TObject [(''a'', TArray [TNum 1, THandle 0]), (''d'', TDate 5)]"
  have d: "deep 3 ?h (Ref 2) = Some ?t"
    by code_simp
  have c: "CLONE 3 (Ref 2) ?h = Some (Ret (Ref 4) (?h @ ?e))"
    by code_simp
  have t5: "5 \<in> touched 3 (?h @ ?e) (Ref 4)" "\<not> handle ((?h @ ?e) ! 5)"
    by code_simp+
  have "proto_free ?t"
    by code_simp
  from CLONE_copies_ordinary [OF d this] obtain ext x' where
    1: "CLONE 3 (Ref 2) ?h = Some (Ret x' (?h @ ext))"
    and 2: "deep 3 (?h @ ext) x' = Some ?t"
    and 3: "\<forall>a \<in> touched 3 (?h @ ext) x'. \<not> handle ((?h @ ext) ! a) \<longrightarrow>
                length ?h \<le> a \<and> (\<forall>ob. deep 3 ((?h @ ext)[a := ob]) (Ref 2) = Some ?t)"
    by blast
  from 1 c have x': "x' = Ref 4" and ext: "ext = ?e" by simp_all
  have 4: "deep 3 (?h @ ?e) (Ref 4) = Some ?t" using 2 unfolding x' ext .
  have 5: "deep 3 ((?h @ ?e)[5 := Obj (Array [Num 2]) []]) (Ref 2) = Some ?t"
    using 3 t5 unfolding x' ext by blast
  show ?thesis using d c 4 5 by blast
qed

subsection \<open>What a deep merge does to its source\<close>
































text \<open>
  Outside separate nested mappings the call need not return, or it copies other values.
  When target and source are both cyclic under the same key, no depth of calls is enough.
  When the target holds a non-empty string where the source holds an object with an
  index key, \<open>Object.assign\<close> onto the string throws. When the source holds one object
  under two keys, that object is merged twice, and under the second key it does not get
  the value that the target held there.
\<close>

lemma MERGE_cyclic_no_result:
  "MERGE n (Ref 0) (Ref 1) [Obj Plain [(''a'', Ref 0)], Obj Plain [(''a'', Ref 1)]] = None"
  by (induction n) (simp_all add: obj_at_def lookup_def)

lemma MERGE_string_target_throws:
  "MERGE 2 (Ref 0) (Ref 2)
     [Obj Plain [(''a'', Str ''hi'')], Obj Plain [(''0'', Num 1)], Obj Plain [(''a'', Ref 1)]]
   = Some (Throw TypeError
     [Obj Plain [(''a'', Str ''hi'')], Obj Plain [(''0'', Num 1)], Obj Plain [(''a'', Ref 1)]])"
  by code_simp

lemma MERGE_shared_nested:
  "MERGE 2 (Ref 0) (Ref 3)
     [Obj Plain [(''a'', Ref 1), (''b'', Ref 2)], Obj Plain [(''x'', Num 1)],
      Obj Plain [(''x'', Num 2)], Obj Plain [(''a'', Ref 4), (''b'', Ref 4)], Obj Plain []]
   = Some (Ret (Ref 0)
     [Obj Plain [(''a'', Ref 4), (''b'', Ref 4)], Obj Plain [(''x'', Num 1)],
      Obj Plain [(''x'', Num 1)], Obj Plain [(''a'', Ref 4), (''b'', Ref 4)],
      Obj Plain [(''x'', Num 1)]])"
  by code_simp




subsection \<open>The queue holds one intent\<close>

lemma navigate_last_wins: "navigate (navigate st p1) p2 = navigate st p2"
  by (simp add: navigate_def)

end
